theory Spec2Isabelle
  imports Main
begin

section \<open>Preliminaries: JavaScript values\<close>

text \<open>
  JavaScript strings are modelled as \<open>string\<close>; a \<open>char\<close> stands for one code unit
  below 256. A value that may be \<open>null\<close> or \<open>undefined\<close> is an \<open>option\<close>, with
  \<open>None\<close> for the missing value. A call that throws is an error value of the result.
\<close>

text \<open>
  A plain object used as a dictionary is indexed by strings: indexing it with \<open>null\<close>
  reads the property named \<open>null\<close>.
\<close>

definition key_of :: "string option \<Rightarrow> string" where
  "key_of k = (case k of None \<Rightarrow> ''null'' | Some s \<Rightarrow> s)"

text \<open>
  A plain object also answers for the property names it inherits from
  \<open>Object.prototype\<close>: reading one of them finds a function (under \<open>__proto__\<close> the
  prototype object itself), a value that is truthy and has none of the properties the
  parsers store or read, unless an own property of that name hides it. The model follows
  every such read, and keeps what is written to such a value on that value. What a cell
  whose id is \<open>__proto__\<close> does to the prototype chain (a write to the prototype object,
  which other objects then inherit, or an assignment to the property \<open>__proto__\<close> of a
  dictionary) is not followed beyond that.
\<close>

definition inherited_names :: "string list" where
  "inherited_names =
     [''constructor'', ''__defineGetter__'', ''__defineSetter__'', ''hasOwnProperty'',
      ''__lookupGetter__'', ''__lookupSetter__'', ''isPrototypeOf'', ''propertyIsEnumerable'',
      ''toString'', ''valueOf'', ''__proto__'', ''toLocaleString'']"

text \<open>Truthiness of a string that may be null: neither null nor empty.\<close>

definition truthy :: "string option \<Rightarrow> bool" where
  "truthy v = (case v of None \<Rightarrow> False | Some s \<Rightarrow> s \<noteq> [])"

text \<open>\<open>v || ''\<close> for a string that may be null.\<close>

definition or_empty :: "string option \<Rightarrow> string" where
  "or_empty v = (case v of None \<Rightarrow> [] | Some s \<Rightarrow> s)"

text \<open>The errors the program throws.\<close>

datatype error = RangeError | TypeError | DuplicateNode string string

section \<open>The codec: decodeDrawio and encodeDrawio\<close>

text \<open>
  The codec is a pipeline over capabilities of the platform and of the libraries it
  requires (the XML parser, \<open>atob\<close>/\<open>btoa\<close>, pako's raw deflate, the percent
  coders). None of them is code of this package, so they are parameters of the model, each
  a function that returns \<open>None\<close> where the call throws.

  Of the parsed document the decoder reads the name of the document element and the text
  content of the \<open>diagram\<close> elements below it.
\<close>

record xml_element =
  nodeName :: string
  diagramTexts :: "string list"

record xml_document =
  documentElement :: "xml_element option"

record codec_env =
  parseXml :: "string \<Rightarrow> xml_document option"
  atob :: "string \<Rightarrow> string option"
  btoa :: "string \<Rightarrow> string option"
  inflateRaw :: "string \<Rightarrow> string option"
  deflateRaw :: "string \<Rightarrow> string option"
  encodeURIComponent :: "string \<Rightarrow> string option"
  decodeURIComponent :: "string \<Rightarrow> string option"

text \<open>
  The options object: each flag may be absent and then defaults to true, and the whole
  object may be absent (\<open>options || {}\<close>).
\<close>

record codec_options =
  base64 :: "bool option"
  deflate :: "bool option"
  urlEncode :: "bool option"

definition flag :: "(codec_options \<Rightarrow> bool option) \<Rightarrow> codec_options option \<Rightarrow> bool" where
  "flag sel options =
     (case options of
        None \<Rightarrow> True
      | Some opts \<Rightarrow> (case sel opts of None \<Rightarrow> True | Some b \<Rightarrow> b))"

text \<open>
  The first \<open>try\<close> block of \<open>decodeDrawio\<close>: parse the data as XML; when the document
  element is an \<open>mxfile\<close> with at least one \<open>diagram\<close>, the data becomes the text of
  the first one. A throw anywhere in the block makes the whole call return null.
\<close>

definition unwrapDocument :: "codec_env \<Rightarrow> string \<Rightarrow> string option" where
  "unwrapDocument env data =
     (case parseXml env data of
        None \<Rightarrow> None
      | Some doc \<Rightarrow>
          (case documentElement doc of
             None \<Rightarrow> Some data
           | Some node \<Rightarrow>
               if nodeName node = ''mxfile'' then
                 (case diagramTexts node of [] \<Rightarrow> Some data | t # _ \<Rightarrow> Some t)
               else Some data))"

definition decodeBase64 :: "codec_env \<Rightarrow> codec_options option \<Rightarrow> string \<Rightarrow> string option" where
  "decodeBase64 env options data = (if flag base64 options then atob env data else Some data)"

definition decodeDeflate :: "codec_env \<Rightarrow> codec_options option \<Rightarrow> string \<Rightarrow> string option" where
  "decodeDeflate env options data =
     (if flag deflate options \<and> length data > 0 then inflateRaw env data else Some data)"

definition decodeUrl :: "codec_env \<Rightarrow> codec_options option \<Rightarrow> string \<Rightarrow> string option" where
  "decodeUrl env options data =
     (if flag urlEncode options then decodeURIComponent env data else Some data)"

definition decodeDrawio :: "codec_env \<Rightarrow> codec_options option \<Rightarrow> string \<Rightarrow> string option" where
  "decodeDrawio env options data =
     (case unwrapDocument env data of
        None \<Rightarrow> None
      | Some d0 \<Rightarrow>
          (case decodeBase64 env options d0 of
             None \<Rightarrow> None
           | Some d1 \<Rightarrow>
               (case decodeDeflate env options d1 of
                  None \<Rightarrow> None
                | Some d2 \<Rightarrow> decodeUrl env options d2)))"

definition encodeUrl :: "codec_env \<Rightarrow> codec_options option \<Rightarrow> string \<Rightarrow> string option" where
  "encodeUrl env options data =
     (if flag urlEncode options then encodeURIComponent env data else Some data)"

definition encodeDeflate :: "codec_env \<Rightarrow> codec_options option \<Rightarrow> string \<Rightarrow> string option" where
  "encodeDeflate env options data =
     (if flag deflate options \<and> length data > 0 then deflateRaw env data else Some data)"

definition encodeBase64 :: "codec_env \<Rightarrow> codec_options option \<Rightarrow> string \<Rightarrow> string option" where
  "encodeBase64 env options data = (if flag base64 options then btoa env data else Some data)"

definition encodeDrawio :: "codec_env \<Rightarrow> codec_options option \<Rightarrow> string \<Rightarrow> string option" where
  "encodeDrawio env options data =
     (case encodeUrl env options data of
        None \<Rightarrow> None
      | Some e0 \<Rightarrow>
          (case encodeDeflate env options e0 of
             None \<Rightarrow> None
           | Some e1 \<Rightarrow> encodeBase64 env options e1))"

section \<open>The document\<close>

text \<open>
  The parsers query the parsed diagram for \<open>mxCell\<close> elements and read their \<open>id\<close>
  property (the empty string when the attribute is absent) and the attributes \<open>value\<close>,
  \<open>style\<close>, \<open>parent\<close>, \<open>edge\<close>, \<open>source\<close> and \<open>target\<close> (\<open>getAttribute\<close>
  gives null for an absent attribute). A document is the list of its \<open>mxCell\<close> elements
  in document order, which is the order \<open>querySelectorAll\<close> returns them in.
\<close>

record mxCell =
  mx_id :: string
  mx_value :: "string option"
  mx_style :: "string option"
  mx_parent :: "string option"
  mx_edge :: "string option"
  mx_source :: "string option"
  mx_target :: "string option"

type_synonym document = "mxCell list"

definition starts_with :: "string \<Rightarrow> string \<Rightarrow> bool" where
  "starts_with s p = (take (length p) s = p)"

fun str_includes :: "string \<Rightarrow> string \<Rightarrow> bool" where
  "str_includes [] p = (p = [])"
| "str_includes (c # cs) p = (starts_with (c # cs) p \<or> str_includes cs p)"

text \<open>The selector \<open>mxCell[style*="container=1"]\<close>.\<close>

definition select_containers :: "document \<Rightarrow> mxCell list" where
  "select_containers doc =
     filter (\<lambda>n. case mx_style n of None \<Rightarrow> False | Some s \<Rightarrow> str_includes s ''container=1'') doc"

text \<open>The selector \<open>mxCell[value]\<close>.\<close>

definition select_valued :: "document \<Rightarrow> mxCell list" where
  "select_valued doc = filter (\<lambda>n. mx_value n \<noteq> None) doc"

text \<open>The selector \<open>mxCell[edge="1"]\<close>.\<close>

definition select_edges :: "document \<Rightarrow> mxCell list" where
  "select_edges doc = filter (\<lambda>n. mx_edge n = Some ''1'') doc"

section \<open>Numbers as text\<close>

text \<open>A counter interpolated into a template string is written in decimal.\<close>

definition digit_char :: "nat \<Rightarrow> char" where
  "digit_char d = ''0123456789'' ! (d mod 10)"

fun show_nat :: "nat \<Rightarrow> string" where
  "show_nat n = (if n < 10 then [digit_char n] else show_nat (n div 10) @ [digit_char (n mod 10)])"

declare show_nat.simps [simp del]

definition digit_val :: "char \<Rightarrow> nat" where
  "digit_val c = of_char c - 48"

definition read_nat :: "string \<Rightarrow> nat" where
  "read_nat s = foldl (\<lambda>a c. 10 * a + digit_val c) 0 s"

section \<open>The container extractor: parseContainers\<close>

text \<open>
  Tree nodes are objects that the extractor mutates and shares, so they live in a heap.
  An address is the synthetic root, the object stored in \<open>containerCache\<close> under a
  key (every cached object is stored under one key only), or the value that the cache
  inherits under one of the \<open>inherited_names\<close>. An inherited value has no \<open>children\<close>:
  the field is undefined, and a push to it throws a TypeError.
\<close>

datatype cref = Root | Cached string | Inherited string

record tree_node =
  t_node :: "mxCell option"
  t_nodeId :: "string option"
  t_parent :: "cref option"
  t_children :: "cref list"
  t_value :: "string option"

type_synonym heap = "cref \<Rightarrow> tree_node"

definition createNode :: tree_node where
  "createNode = \<lparr>t_node = None, t_nodeId = None, t_parent = None, t_children = [], t_value = None\<rparr>"

definition connectNodes :: "cref \<Rightarrow> cref \<Rightarrow> heap \<Rightarrow> error + heap" where
  "connectNodes p c h =
     (case p of
        Inherited _ \<Rightarrow> Inl TypeError
      | _ \<Rightarrow>
          Inr (let h1 = h(p := (h p)\<lparr>t_children := t_children (h p) @ [c]\<rparr>)
               in h1(c := (h1 c)\<lparr>t_parent := Some p\<rparr>)))"

text \<open>
  The state of the extractor's loop: the heap, and the property names of
  \<open>containerCache\<close> in the order they were created.
\<close>

record container_state =
  cs_heap :: heap
  cs_keys :: "string list"

definition init_state :: container_state where
  "init_state = \<lparr>cs_heap = (\<lambda>_. createNode), cs_keys = []\<rparr>"

text \<open>
  \<open>containerCache[k]\<close>: the own property \<open>k\<close> if there is one, else the inherited value
  if \<open>k\<close> is an inherited name, else undefined.
\<close>

definition cache_get :: "container_state \<Rightarrow> string \<Rightarrow> cref option" where
  "cache_get st k =
     (if k \<in> set (cs_keys st) then Some (Cached k)
      else if k \<in> set inherited_names then Some (Inherited k)
      else None)"

text \<open>\<open>if (!containerCache[k]) containerCache[k] = createNode()\<close>\<close>

definition ensure_cached :: "string \<Rightarrow> container_state \<Rightarrow> container_state" where
  "ensure_cached k st =
     (case cache_get st k of
        Some _ \<Rightarrow> st
      | None \<Rightarrow> \<lparr>cs_heap = (cs_heap st)(Cached k := createNode), cs_keys = cs_keys st @ [k]\<rparr>)"

text \<open>
  The body of the \<open>forEach\<close>. The three steps after the node is filled in are not
  alternatives: the placeholder for the parent key is created and the node is connected to
  it on every path, also after the node was connected to the root. A read of the cache
  that finds nothing would make the next property access throw; a read that finds an
  inherited value makes \<open>connectNodes\<close> throw when that value is the parent.
\<close>

definition no_parent_container :: "string list \<Rightarrow> string option \<Rightarrow> bool" where
  "no_parent_container containerNodeIds parentId =
     (case parentId of None \<Rightarrow> True | Some p \<Rightarrow> p = [] \<or> p \<notin> set containerNodeIds)"

definition container_step :: "string list \<Rightarrow> mxCell \<Rightarrow> container_state \<Rightarrow> error + container_state" where
  "container_step containerNodeIds node st =
     (let st1 = ensure_cached (mx_id node) st in
      case cache_get st1 (mx_id node) of
        None \<Rightarrow> Inl TypeError
      | Some currTreeNode \<Rightarrow>
          (let h2 = (cs_heap st1)(currTreeNode := (cs_heap st1 currTreeNode)
                      \<lparr>t_node := Some node, t_nodeId := Some (mx_id node),
                       t_value := Some (or_empty (mx_value node))\<rparr>);
               parentId = mx_parent node
           in case (if no_parent_container containerNodeIds parentId
                    then connectNodes Root currTreeNode h2 else Inr h2) of
                Inl e \<Rightarrow> Inl e
              | Inr h3 \<Rightarrow>
                  (let st4 = ensure_cached (key_of parentId) (st1\<lparr>cs_heap := h3\<rparr>) in
                   case cache_get st4 (key_of parentId) of
                     None \<Rightarrow> Inl TypeError
                   | Some parent \<Rightarrow>
                       (case connectNodes parent currTreeNode (cs_heap st4) of
                          Inl e \<Rightarrow> Inl e
                        | Inr h5 \<Rightarrow> Inr (st4\<lparr>cs_heap := h5\<rparr>)))))"

text \<open>The \<open>forEach\<close> itself: a throw in one turn ends the loop.\<close>

fun container_loop :: "string list \<Rightarrow> mxCell list \<Rightarrow> container_state \<Rightarrow> error + container_state" where
  "container_loop containerNodeIds [] st = Inr st"
| "container_loop containerNodeIds (node # nodes) st =
     (case container_step containerNodeIds node st of
        Inl e \<Rightarrow> Inl e
      | Inr st' \<Rightarrow> container_loop containerNodeIds nodes st')"

text \<open>
  \<open>Object.values\<close> lists the values of integer-like keys first, in ascending numeric
  order, and then the values of the other keys in creation order.
\<close>

definition is_index_key :: "string \<Rightarrow> bool" where
  "is_index_key k \<longleftrightarrow>
     k \<noteq> [] \<and> list_all (\<lambda>c. c \<in> set ''0123456789'') k \<and> (k = ''0'' \<or> hd k \<noteq> CHR ''0'') \<and>
     read_nat k < 4294967295"

definition own_keys_order :: "string list \<Rightarrow> string list" where
  "own_keys_order ks =
     sort_key read_nat (filter is_index_key ks) @ filter (\<lambda>k. \<not> is_index_key k) ks"

record containers_result =
  c_heap :: heap
  c_root :: cref
  c_all :: "cref list"

definition containerNodes_of :: "document \<Rightarrow> mxCell list" where
  "containerNodes_of doc = filter (\<lambda>n. mx_id n \<noteq> []) (select_containers doc)"

definition parseContainers :: "document \<Rightarrow> error + containers_result" where
  "parseContainers doc =
     (let containerNodes = containerNodes_of doc;
          containerNodeIds = map mx_id containerNodes
      in case container_loop containerNodeIds containerNodes init_state of
           Inl e \<Rightarrow> Inl e
         | Inr st \<Rightarrow>
             Inr \<lparr>c_heap = cs_heap st, c_root = Root,
                  c_all = map Cached (own_keys_order (cs_keys st))\<rparr>)"

section \<open>Extracted entities\<close>

text \<open>
  A prefixed node as \<open>findPrefixedNodes\<close> returns it; assumptions and questions extend
  it. The field \<open>value\<close> is written \<open>value'\<close>. An assumption holds its linked
  questions in \<open>a_questions\<close> (the source's \<open>questions\<close>, a name the question's own
  list of sub-question texts already has). The linker's back references
  (\<open>quest.assumptions\<close>, \<open>container.assumptions\<close>) are written and never read; they
  are left out, so an assumption holds its questions by value.
\<close>

record prefixed_node =
  node :: mxCell
  nodeId :: string
  prefix :: string
  prefixId :: string
  value' :: string
  rawValue :: string

record question = prefixed_node +
  questions :: "string list"
  targetIds :: "string option list"

record assumption = prefixed_node +
  parentId :: "string option"
  a_questions :: "question list"
  container :: "cref option"

section \<open>The graph linker: transformConnectQuestions and transformConnectContainers\<close>

text \<open>
  A dictionary built by assigning \<open>agg[key] = x\<close> over a list holds, for each key, the
  last element with that key; \<open>last_with P xs\<close> is the position of the last element of
  \<open>xs\<close> that satisfies \<open>P\<close>.

  In \<open>transformConnectQuestions\<close> a target id that is an inherited name and no
  assumption's node id finds an inherited value: the question is pushed to a list on that
  value and no assumption changes. In \<open>transformConnectContainers\<close> a parent id of that
  kind makes the inherited value the container of the assumption.
\<close>

fun last_with :: "('a \<Rightarrow> bool) \<Rightarrow> 'a list \<Rightarrow> nat option" where
  "last_with P [] = None"
| "last_with P (x # xs) =
     (case last_with P xs of
        Some i \<Rightarrow> Some (Suc i)
      | None \<Rightarrow> if P x then Some 0 else None)"

definition link_question :: "question \<Rightarrow> string option \<Rightarrow> assumption list \<Rightarrow> assumption list" where
  "link_question quest questTargetId assumps =
     (case last_with (\<lambda>a. nodeId a = key_of questTargetId) assumps of
        None \<Rightarrow> assumps
      | Some i \<Rightarrow> assumps[i := (assumps ! i)\<lparr>a_questions := a_questions (assumps ! i) @ [quest]\<rparr>])"

definition transformConnectQuestions :: "assumption list \<Rightarrow> question list \<Rightarrow> assumption list" where
  "transformConnectQuestions assumps quests =
     fold (\<lambda>quest. fold (link_question quest) (targetIds quest)) quests assumps"

definition transformConnectContainers :: "containers_result \<Rightarrow> assumption list \<Rightarrow> assumption list" where
  "transformConnectContainers conts assumps =
     map (\<lambda>assump.
            case List.find (\<lambda>r. key_of (t_nodeId (c_heap conts r)) = key_of (parentId assump))
                   (rev (c_all conts)) of
              None \<Rightarrow>
                if key_of (parentId assump) \<in> set inherited_names
                then assump\<lparr>container := Some (Inherited (key_of (parentId assump)))\<rparr>
                else assump
            | Some r \<Rightarrow> assump\<lparr>container := Some r\<rparr>)
         assumps"

section \<open>The table flattener: doFormatCsv\<close>

text \<open>
  A cell of the table is a string or null. \<open>Math.max\<close> of no arguments is
  \<open>-Infinity\<close>, and \<open>Array(n)\<close> throws a RangeError unless \<open>n\<close> is an integer below
  \<open>2^32\<close>. The two loops that follow \<open>parent\<close> references do not return on a cyclic
  chain, so they are partial functions and \<open>None\<close> is a run that does not return.
\<close>

type_synonym cell = "string option"

datatype js_number = NegInfinity | Num nat

fun Math_max :: "nat list \<Rightarrow> js_number" where
  "Math_max [] = NegInfinity"
| "Math_max (d # ds) = (case Math_max ds of NegInfinity \<Rightarrow> Num d | Num m \<Rightarrow> Num (max d m))"

definition js_Array :: "js_number \<Rightarrow> error + nat" where
  "js_Array n = (case n of NegInfinity \<Rightarrow> Inl RangeError
                 | Num k \<Rightarrow> if k < 4294967296 then Inr k else Inl RangeError)"

partial_function (option) container_depth :: "heap \<Rightarrow> cref \<Rightarrow> nat \<Rightarrow> nat option" where
  "container_depth h currContainer depth =
     (case t_parent (h currContainer) of
        None \<Rightarrow> Some depth
      | Some p \<Rightarrow> container_depth h p (depth + 1))"

partial_function (option) container_chain :: "heap \<Rightarrow> cref option \<Rightarrow> cell list \<Rightarrow> cell list option" where
  "container_chain h currContainer containers =
     (case currContainer of
        None \<Rightarrow> Some containers
      | Some c \<Rightarrow>
          container_chain h (t_parent (h c))
            (if truthy (t_nodeId (h c)) then t_value (h c) # containers else containers))"

function pad_containers :: "nat \<Rightarrow> cell list \<Rightarrow> cell list" where
  "pad_containers maxContainerDepth containers =
     (if length containers < maxContainerDepth
      then pad_containers maxContainerDepth (containers @ [Some []])
      else containers)"
  by pat_completeness auto
termination
  by (relation "measure (\<lambda>(m, cs). m - length cs)") auto

declare pad_containers.simps [simp del]

fun join :: "string \<Rightarrow> string list \<Rightarrow> string" where
  "join sep [] = []"
| "join sep [x] = x"
| "join sep (x # y # ys) = x @ sep @ join sep (y # ys)"

definition csvHeaders :: "nat \<Rightarrow> cell list" where
  "csvHeaders maxContainerDepth =
     [Some ''assumptionId'', Some ''questionId'', Some ''subquestionId'', Some ''assumption'',
      Some ''question'', Some ''container'']
     @ map (\<lambda>i. Some (''container_depth'' @ show_nat (i + 1))) [0..<maxContainerDepth]"

text \<open>
  \<open>createRow(q, index)\<close>, called without arguments for the row of the assumption alone
  and with a question and a position of its list otherwise.
\<close>

definition createRow :: "assumption \<Rightarrow> string \<Rightarrow> cell list \<Rightarrow> question option \<Rightarrow> nat option \<Rightarrow> cell list" where
  "createRow a containerKey containers q index =
     [Some (prefixId a),
      (case q of None \<Rightarrow> None | Some q' \<Rightarrow> Some (prefixId q')),
      (case index of
         None \<Rightarrow> None
       | Some i \<Rightarrow>
           (case q of
              None \<Rightarrow> None
            | Some q' \<Rightarrow>
                Some (prefix a @ ''('' @ prefixId a @ ''):'' @ prefix q' @ ''('' @ prefixId q'
                      @ ''):'' @ show_nat (i + 1)))),
      Some (value' a),
      (case q of
         None \<Rightarrow> None
       | Some q' \<Rightarrow>
           (case index of
              None \<Rightarrow> None
            | Some i \<Rightarrow> if i < length (questions q') then Some (questions q' ! i) else None)),
      Some containerKey]
     @ containers"

text \<open>
  The callback of \<open>flatMap\<close>: \<open>rows_from_chain\<close> is its body after the loop that
  collects the container chain.
\<close>

definition rows_from_chain :: "nat \<Rightarrow> assumption \<Rightarrow> cell list \<Rightarrow> cell list list" where
  "rows_from_chain maxContainerDepth a chain =
     (let containers = pad_containers maxContainerDepth chain;
          containerKey = join '' / '' (map or_empty (filter truthy containers))
      in createRow a containerKey containers None None
         # concat (map (\<lambda>q. map (\<lambda>i. createRow a containerKey containers (Some q) (Some i))
                                 [0..<length (questions q)])
                       (a_questions a)))"

definition assumption_rows :: "heap \<Rightarrow> nat \<Rightarrow> assumption \<Rightarrow> cell list list option" where
  "assumption_rows h maxContainerDepth a =
     (case container_chain h (container a) [] of
        None \<Rightarrow> None
      | Some chain \<Rightarrow> Some (rows_from_chain maxContainerDepth a chain))"

record flat_data =
  containers :: containers_result
  assumptions :: "assumption list"

definition doFormatCsv :: "flat_data \<Rightarrow> (error + cell list list) option" where
  "doFormatCsv data =
     (let h = c_heap (containers data) in
      case those (map (\<lambda>c. container_depth h c 0) (c_all (containers data))) of
        None \<Rightarrow> None
      | Some depths \<Rightarrow>
          (case js_Array (Math_max depths) of
             Inl e \<Rightarrow> Some (Inl e)
           | Inr maxContainerDepth \<Rightarrow>
               (case those (map (assumption_rows h maxContainerDepth) (assumptions data)) of
                  None \<Rightarrow> None
                | Some csvData \<Rightarrow> Some (Inr (csvHeaders maxContainerDepth # concat csvData)))))"

section \<open>Regular expressions\<close>

text \<open>
  The three patterns of the parsers are run by a backtracking matcher. A match state is
  a position in the subject and the text held by the pattern's one capture group;
  \<open>rmatch r s st\<close> lists the states in which \<open>r\<close> can end when started in \<open>st\<close>, in
  the order a backtracking engine tries them, so the head of the list is the match it
  finds. Greedy operators list the longer alternatives first and lazy ones last. An
  iteration of \<open>?\<close> or \<open>*\<close> that consumes nothing is discarded, as the language
  defines. \<open>ChrI\<close> is a character under the \<open>i\<close> flag, compared after
  canonicalisation (upper-casing a letter \<open>a-z\<close>).
\<close>

datatype regex =
    Eps
  | Chr char
  | ChrI char
  | Cls "char \<Rightarrow> bool"
  | Bol
  | Seq regex regex
  | Alt regex regex
  | Opt regex
  | Star regex
  | LazyStar regex
  | Group regex

type_synonym mstate = "nat \<times> string option"

definition canonicalize :: "char \<Rightarrow> char" where
  "canonicalize c =
     (case map_of (zip ''abcdefghijklmnopqrstuvwxyz'' ''ABCDEFGHIJKLMNOPQRSTUVWXYZ'') c of
        None \<Rightarrow> c
      | Some u \<Rightarrow> u)"

function (sequential) rmatch :: "regex \<Rightarrow> string \<Rightarrow> mstate \<Rightarrow> mstate list" where
  "rmatch Eps s st = [st]"
| "rmatch (Chr c) s (i, cap) = (if i < length s \<and> s ! i = c then [(Suc i, cap)] else [])"
| "rmatch (ChrI c) s (i, cap) =
     (if i < length s \<and> canonicalize (s ! i) = canonicalize c then [(Suc i, cap)] else [])"
| "rmatch (Cls P) s (i, cap) = (if i < length s \<and> P (s ! i) then [(Suc i, cap)] else [])"
| "rmatch Bol s (i, cap) = (if i = 0 then [(i, cap)] else [])"
| "rmatch (Seq a b) s st = concat (map (rmatch b s) (rmatch a s st))"
| "rmatch (Alt a b) s st = rmatch a s st @ rmatch b s st"
| "rmatch (Opt a) s st = filter (\<lambda>st'. fst st < fst st') (rmatch a s st) @ [st]"
| "rmatch (Star a) s st =
     concat (map (\<lambda>st'. if fst st < fst st' \<and> fst st' \<le> length s then rmatch (Star a) s st' else [])
                 (rmatch a s st))
     @ [st]"
| "rmatch (LazyStar a) s st =
     st # concat (map (\<lambda>st'. if fst st < fst st' \<and> fst st' \<le> length s
                              then rmatch (LazyStar a) s st' else [])
                      (rmatch a s st))"
| "rmatch (Group a) s (i, cap) =
     map (\<lambda>(j, _). (j, Some (take (j - i) (drop i s)))) (rmatch a s (i, cap))"
  by pat_completeness auto
termination
  by (relation "inv_image (less_than <*lex*> less_than) (\<lambda>(r, s, st). (size r, length s - fst st))")
    auto

text \<open>
  \<open>regex_exec r s lastIndex\<close> is the leftmost match at or after \<open>lastIndex\<close>: where it
  starts, where it ends and what the group captured.
\<close>

function regex_exec :: "regex \<Rightarrow> string \<Rightarrow> nat \<Rightarrow> (nat \<times> nat \<times> string option) option" where
  "regex_exec r s lastIndex =
     (if length s < lastIndex then None
      else
        (case rmatch r s (lastIndex, None) of
           [] \<Rightarrow> regex_exec r s (Suc lastIndex)
         | (j, cap) # _ \<Rightarrow> Some (lastIndex, j, cap)))"
  by pat_completeness auto
termination
  by (relation "measure (\<lambda>(r, s, lastIndex). Suc (length s) - lastIndex)") auto

declare regex_exec.simps [simp del]

text \<open>\<open>s.replace(r, '')\<close> for a pattern without the \<open>g\<close> flag: the first match is removed.\<close>

definition replace_first :: "regex \<Rightarrow> string \<Rightarrow> string" where
  "replace_first r s =
     (case regex_exec r s 0 of None \<Rightarrow> s | Some (i, j, _) \<Rightarrow> take i s @ drop j s)"

text \<open>
  \<open>s.replace(r, '')\<close> for a pattern with the \<open>g\<close> flag, from position \<open>lastIndex\<close> on:
  every match is removed, and the search goes on where the match ended (one character
  later after an empty match).
\<close>

function replace_all :: "regex \<Rightarrow> string \<Rightarrow> nat \<Rightarrow> string" where
  "replace_all r s lastIndex =
     (case regex_exec r s lastIndex of
        None \<Rightarrow> drop lastIndex s
      | Some (i, j, _) \<Rightarrow>
          if lastIndex \<le> i \<and> i < j \<and> j \<le> length s
          then take (i - lastIndex) (drop lastIndex s) @ replace_all r s j
          else if lastIndex \<le> i \<and> i = j \<and> i < length s
          then take (Suc i - lastIndex) (drop lastIndex s) @ replace_all r s (Suc i)
          else drop lastIndex s)"
  by pat_completeness auto
termination
  by (relation "measure (\<lambda>(r, s, lastIndex). length s - lastIndex)") auto

declare replace_all.simps [simp del]

text \<open>
  \<open>s.split(r)\<close> for a pattern without groups: \<open>p\<close> is the end of the last separator,
  \<open>q\<close> the position tried next.
\<close>

function split_loop :: "regex \<Rightarrow> string \<Rightarrow> nat \<Rightarrow> nat \<Rightarrow> string list \<Rightarrow> string list" where
  "split_loop r s p q acc =
     (if q < length s then
        (case rmatch r s (q, None) of
           [] \<Rightarrow> split_loop r s p (Suc q) acc
         | (z, _) # _ \<Rightarrow>
             (let e = min z (length s) in
              if e = p \<or> e < q then split_loop r s p (Suc q) acc
              else if q < e then split_loop r s e e (acc @ [take (q - p) (drop p s)])
              else split_loop r s q (Suc q) (acc @ [take (q - p) (drop p s)])))
      else acc @ [drop p s])"
  by pat_completeness auto
termination
  by (relation "measure (\<lambda>(r, s, p, q, acc). length s - q)") auto

declare split_loop.simps [simp del]

definition regex_split :: "regex \<Rightarrow> string \<Rightarrow> string list" where
  "regex_split r s =
     (if s = [] then (case rmatch r s (0, None) of [] \<Rightarrow> [s] | _ # _ \<Rightarrow> [])
      else split_loop r s 0 0 [])"

definition is_space :: "char \<Rightarrow> bool" where
  "is_space c \<longleftrightarrow> c \<in> set [CHR 0x09, CHR 0x0A, CHR 0x0B, CHR 0x0C, CHR 0x0D, CHR 0x20, CHR 0xA0]"

definition is_word :: "char \<Rightarrow> bool" where
  "is_word c \<longleftrightarrow> c \<in> set ''abcdefghijklmnopqrstuvwxyzABCDEFGHIJKLMNOPQRSTUVWXYZ0123456789_''"

definition is_dot :: "char \<Rightarrow> bool" where
  "is_dot c \<longleftrightarrow> c \<noteq> CHR 0x0A \<and> c \<noteq> CHR 0x0D"

definition trim :: "string \<Rightarrow> string" where
  "trim s = rev (dropWhile is_space (rev (dropWhile is_space s)))"

definition chars :: "string \<Rightarrow> regex" where
  "chars w = foldr (\<lambda>c r. Seq (Chr c) r) w Eps"

definition charsI :: "string \<Rightarrow> regex" where
  "charsI w = foldr (\<lambda>c r. Seq (ChrI c) r) w Eps"

text \<open>\<open>/<\/?(?:font|span)\s*.*?>/g\<close>\<close>

definition tagRegex :: regex where
  "tagRegex =
     Seq (Chr CHR ''<'') (Seq (Opt (Chr CHR ''/'')) (Seq (Alt (chars ''font'') (chars ''span''))
       (Seq (Star (Cls is_space)) (Seq (LazyStar (Cls is_dot)) (Chr CHR ''>'')))))"

text \<open>
  \<open>new RegExp(`(?:^|>)${prefix}(?:\\((?<id>\\w+)\\))?:\\s*`, 'i')\<close>. The prefix is
  interpolated into the pattern; the model takes it as literal text, which it is for a
  prefix of letters and digits (the parsers pass \<open>A\<close> and \<open>Q\<close>).
\<close>

definition genPrefixRegexp :: "string \<Rightarrow> regex" where
  "genPrefixRegexp prefix' =
     Seq (Alt Bol (ChrI CHR ''>'')) (Seq (charsI prefix')
       (Seq (Opt (Seq (ChrI CHR ''('') (Seq (Group (Seq (Cls is_word) (Star (Cls is_word))))
                                          (ChrI CHR '')''))))
         (Seq (ChrI CHR '':'') (Star (Cls is_space)))))"

text \<open>\<open>/<br.*?>-\s*/\<close>\<close>

definition bulletRegex :: regex where
  "bulletRegex =
     Seq (chars ''<br'') (Seq (LazyStar (Cls is_dot)) (Seq (Chr CHR ''>'') (Seq (Chr CHR ''-'')
       (Star (Cls is_space)))))"

section \<open>The prefix extractor\<close>

text \<open>
  \<open>htmlDecode\<close> hands the text to an HTML parser of a library and reads the text content
  back; it is a parameter of the model.
\<close>

record extracted =
  e_match :: bool
  e_value :: string
  e_rawValue :: string
  e_prefixId :: "string option"

definition cleanup :: "string \<Rightarrow> string \<Rightarrow> string" where
  "cleanup prefix' v = replace_first (genPrefixRegexp prefix') (replace_all tagRegex v 0)"

definition extractPrefixFromNode :: "(string \<Rightarrow> string) \<Rightarrow> mxCell \<Rightarrow> string \<Rightarrow> extracted" where
  "extractPrefixFromNode htmlDecode n prefix' =
     (let rawValue' = or_empty (mx_value n);
          v = htmlDecode rawValue'
      in case regex_exec (genPrefixRegexp prefix') v 0 of
           None \<Rightarrow> \<lparr>e_match = False, e_value = [], e_rawValue = [], e_prefixId = None\<rparr>
         | Some (i, j, prefixId') \<Rightarrow>
             if take (j - i) (drop i v) = []
             then \<lparr>e_match = False, e_value = [], e_rawValue = [], e_prefixId = None\<rparr>
             else \<lparr>e_match = True, e_value = cleanup prefix' v, e_rawValue = rawValue',
                   e_prefixId = prefixId'\<rparr>)"

subsection \<open>Identifiers\<close>

definition auto_id :: "nat \<Rightarrow> string" where
  "auto_id n = ''auto_'' @ show_nat n"

lemma digit_val_digit_char: "d < 10 \<Longrightarrow> digit_val (digit_char d) = d"
proof -
  assume "d < 10"
  then have "d \<in> {0, 1, 2, 3, 4, 5, 6, 7, 8, 9}" by auto
  then show ?thesis by (auto simp: digit_val_def digit_char_def)
qed

lemma read_nat_snoc: "read_nat (s @ [c]) = 10 * read_nat s + digit_val c"
  by (simp add: read_nat_def)

lemma read_show_nat: "read_nat (show_nat n) = n"
proof (induction n rule: show_nat.induct)
  case (1 n)
  show ?case
  proof (cases "n < 10")
    case True
    then show ?thesis
      by (subst show_nat.simps) (simp add: read_nat_def digit_val_digit_char)
  next
    case False
    with 1 have "read_nat (show_nat (n div 10)) = n div 10" by simp
    with False show ?thesis
      by (subst show_nat.simps) (simp add: read_nat_snoc digit_val_digit_char)
  qed
qed

lemma inj_auto_id: "inj auto_id"
proof (rule injI)
  fix m n
  assume "auto_id m = auto_id n"
  then have "read_nat (show_nat m) = read_nat (show_nat n)" by (simp add: auto_id_def)
  then show "m = n" by (simp add: read_show_nat)
qed

lemma finite_reserved: "finite {m. auto_id m \<in> set seen}"
proof -
  have "finite (auto_id -` set seen)" by (rule finite_vimageI [OF _ inj_auto_id]) simp
  then show ?thesis by (simp add: vimage_def)
qed

text \<open>
  \<open>genNextId\<close> of \<open>createIdGen\<close>, with the cache and the counter it closes over
  passed in and handed back: it returns the identifier, the cache with the identifier
  added, and the counter.
\<close>

function genNextId :: "string list \<Rightarrow> nat \<Rightarrow> string \<times> string list \<times> nat" where
  "genNextId idCache autoIdCounter =
     (let idCandidate = auto_id autoIdCounter in
      if idCandidate \<in> set idCache then genNextId idCache (autoIdCounter + 1)
      else (idCandidate, idCandidate # idCache, autoIdCounter + 1))"
  by pat_completeness auto
termination
proof (relation "measure (\<lambda>(seen, n). card {m. n \<le> m \<and> auto_id m \<in> set seen})")
  show "wf (measure (\<lambda>(seen, n). card {m. n \<le> m \<and> auto_id m \<in> set seen}))" by simp
next
  fix idCache :: "string list" and autoIdCounter :: nat and idCandidate
  assume c: "idCandidate = auto_id autoIdCounter" and m: "idCandidate \<in> set idCache"
  define A where "A = {m. autoIdCounter + 1 \<le> m \<and> auto_id m \<in> set idCache}"
  define B where "B = {m. autoIdCounter \<le> m \<and> auto_id m \<in> set idCache}"
  have fin: "finite B"
    unfolding B_def by (rule finite_subset [OF _ finite_reserved [of idCache]]) auto
  have "A \<subseteq> B" by (auto simp: A_def B_def)
  moreover have "autoIdCounter \<in> B" using c m by (simp add: B_def)
  moreover have "autoIdCounter \<notin> A" by (simp add: A_def)
  ultimately have "A \<subset> B" by blast
  then have "card A < card B" by (rule psubset_card_mono [OF fin])
  then show "((idCache, autoIdCounter + 1), (idCache, autoIdCounter))
             \<in> measure (\<lambda>(seen, n). card {m. n \<le> m \<and> auto_id m \<in> set seen})"
    by (simp add: A_def B_def)
qed

declare genNextId.simps [simp del]

text \<open>
  The state of one parser made by \<open>createParserForPrefixedNode\<close>: the identifiers seen
  and the counter of the generator, which shares the set.
\<close>

record parser_state =
  seenIds :: "string list"
  autoIdCounter :: nat

definition new_parser :: parser_state where
  "new_parser = \<lparr>seenIds = [], autoIdCounter = 1\<rparr>"

record parsed =
  p_match :: bool
  p_prefixId :: "string option"
  p_value :: string
  p_rawValue :: string

definition parseNode ::
  "(string \<Rightarrow> string) \<Rightarrow> string \<Rightarrow> mxCell \<Rightarrow> parser_state \<Rightarrow> error + parsed \<times> parser_state" where
  "parseNode htmlDecode prefix' n st =
     (let ex = extractPrefixFromNode htmlDecode n prefix' in
      if \<not> e_match ex
      then Inr (\<lparr>p_match = False, p_prefixId = None, p_value = [], p_rawValue = []\<rparr>, st)
      else
        (case e_prefixId ex of
           None \<Rightarrow>
             (case genNextId (seenIds st) (autoIdCounter st) of
                (newId, seen, counter) \<Rightarrow>
                  Inr (\<lparr>p_match = True, p_prefixId = Some newId, p_value = e_value ex,
                        p_rawValue = e_rawValue ex\<rparr>,
                       \<lparr>seenIds = seen, autoIdCounter = counter\<rparr>))
         | Some prefixId' \<Rightarrow>
             if prefixId' \<in> set (seenIds st) then Inl (DuplicateNode prefix' prefixId')
             else if prefixId' \<noteq> []
             then Inr (\<lparr>p_match = True, p_prefixId = Some prefixId', p_value = e_value ex,
                       p_rawValue = e_rawValue ex\<rparr>,
                      st\<lparr>seenIds := prefixId' # seenIds st\<rparr>)
             else
               (case genNextId (prefixId' # seenIds st) (autoIdCounter st) of
                  (newId, seen, counter) \<Rightarrow>
                    Inr (\<lparr>p_match = True, p_prefixId = Some newId, p_value = e_value ex,
                          p_rawValue = e_rawValue ex\<rparr>,
                         \<lparr>seenIds = seen, autoIdCounter = counter\<rparr>))))"

text \<open>The \<open>reduce\<close> of \<open>findPrefixedNodes\<close> over the nodes with a \<open>value\<close> attribute.\<close>

fun find_loop ::
  "(string \<Rightarrow> string) \<Rightarrow> string \<Rightarrow> mxCell list \<Rightarrow> parser_state \<Rightarrow> prefixed_node list
   \<Rightarrow> error + prefixed_node list" where
  "find_loop htmlDecode prefix' [] st aggArr = Inr aggArr"
| "find_loop htmlDecode prefix' (n # ns) st aggArr =
     (if mx_id n = [] then find_loop htmlDecode prefix' ns st aggArr
      else
        (case parseNode htmlDecode prefix' n st of
           Inl e \<Rightarrow> Inl e
         | Inr (r, st') \<Rightarrow>
             if \<not> p_match r then find_loop htmlDecode prefix' ns st' aggArr
             else find_loop htmlDecode prefix' ns st'
                    (aggArr @ [\<lparr>node = n, nodeId = mx_id n, prefix = prefix',
                                prefixId = or_empty (p_prefixId r), value' = p_value r,
                                rawValue = p_rawValue r\<rparr>])))"

definition findPrefixedNodes ::
  "(string \<Rightarrow> string) \<Rightarrow> document \<Rightarrow> string \<Rightarrow> error + prefixed_node list" where
  "findPrefixedNodes htmlDecode doc prefix' =
     find_loop htmlDecode prefix' (select_valued doc) new_parser []"

section \<open>The assumption and question extractors\<close>

definition parseAssumptions :: "(string \<Rightarrow> string) \<Rightarrow> document \<Rightarrow> error + assumption list" where
  "parseAssumptions htmlDecode doc =
     (case findPrefixedNodes htmlDecode doc ''A'' of
        Inl e \<Rightarrow> Inl e
      | Inr found \<Rightarrow>
          Inr (map (\<lambda>d. \<lparr>node = node d, nodeId = nodeId d, prefix = prefix d,
                          prefixId = prefixId d, value' = value' d, rawValue = rawValue d,
                          parentId = (if truthy (mx_parent (node d)) then mx_parent (node d) else None),
                          a_questions = [], container = None\<rparr>)
                   found))"

definition split_questions :: "string \<Rightarrow> string list" where
  "split_questions rawValue' =
     filter (\<lambda>q. q \<noteq> []) (map trim (drop 1 (regex_split bulletRegex rawValue')))"

text \<open>
  One turn of the loop over the edges. \<open>questionsByNodeId\<close> is a plain object that
  holds, for a node identifier, the last question with it. The source is looked up first;
  the target is looked up only when the source finds nothing. A lookup that finds an
  inherited value is truthy, and the push to the \<open>targetIds\<close> of that value, which has
  none, throws a TypeError.
\<close>

definition push_target :: "nat \<Rightarrow> string option \<Rightarrow> question list \<Rightarrow> question list" where
  "push_target i t qs = qs[i := (qs ! i)\<lparr>targetIds := targetIds (qs ! i) @ [t]\<rparr>]"

definition scan_edge :: "mxCell \<Rightarrow> question list \<Rightarrow> error + question list" where
  "scan_edge n qs =
     (let sourceId = mx_source n; targetId = mx_target n in
      case last_with (\<lambda>q. nodeId q = key_of sourceId) qs of
        Some i \<Rightarrow> Inr (push_target i targetId qs)
      | None \<Rightarrow>
          if key_of sourceId \<in> set inherited_names then Inl TypeError
          else
            (case last_with (\<lambda>q. nodeId q = key_of targetId) qs of
               Some i \<Rightarrow> Inr (push_target i sourceId qs)
             | None \<Rightarrow>
                 if key_of targetId \<in> set inherited_names then Inl TypeError
                 else Inr qs))"

text \<open>The loop over the edges: a throw in one turn ends it.\<close>

fun scan_edges :: "mxCell list \<Rightarrow> question list \<Rightarrow> error + question list" where
  "scan_edges [] qs = Inr qs"
| "scan_edges (n # ns) qs =
     (case scan_edge n qs of
        Inl e \<Rightarrow> Inl e
      | Inr qs' \<Rightarrow> scan_edges ns qs')"

definition questionNodes_of :: "prefixed_node list \<Rightarrow> question list" where
  "questionNodes_of found =
     map (\<lambda>d. \<lparr>node = node d, nodeId = nodeId d, prefix = prefix d, prefixId = prefixId d,
                value' = value' d, rawValue = rawValue d,
                questions = split_questions (rawValue d), targetIds = []\<rparr>)
         found"

definition parseQuestions :: "(string \<Rightarrow> string) \<Rightarrow> document \<Rightarrow> error + question list" where
  "parseQuestions htmlDecode doc =
     (case findPrefixedNodes htmlDecode doc ''Q'' of
        Inl e \<Rightarrow> Inl e
      | Inr found \<Rightarrow> scan_edges (select_edges doc) (questionNodes_of found))"

section \<open>The parse command\<close>

text \<open>
  \<open>parseCommand\<close> of the command line runs the three parsers on the parsed diagram,
  each in a \<open>try\<close> block that leaves a null result where the parser throws, then the two
  transformers and the exporter, which calls \<open>doFormatCsv\<close>. The first transformer reads
  \<open>assumptions.result\<close> and \<open>questions.result\<close> and the second
  \<open>containers.result\<close>, so one of them throws a TypeError when a result is null.
  \<open>parseCommand_table\<close> is the table that reaches the writer.
\<close>

definition parseCommand_table :: "(string \<Rightarrow> string) \<Rightarrow> document \<Rightarrow> (error + cell list list) option" where
  "parseCommand_table htmlDecode doc =
     (case parseContainers doc of
        Inl _ \<Rightarrow> Some (Inl TypeError)
      | Inr conts \<Rightarrow>
          (case parseAssumptions htmlDecode doc of
             Inl _ \<Rightarrow> Some (Inl TypeError)
           | Inr assumps \<Rightarrow>
               (case parseQuestions htmlDecode doc of
                  Inl _ \<Rightarrow> Some (Inl TypeError)
                | Inr quests \<Rightarrow>
                    doFormatCsv \<lparr>containers = conts,
                                 assumptions = transformConnectContainers conts
                                                 (transformConnectQuestions assumps quests)\<rparr>)))"
section \<open>Codec: what the library stages are taken to guarantee\<close>

text \<open>
  The contracts of the library stages under which the round trip is stated: the percent
  decoder inverts the encoder wherever the encoder returns; raw deflate returns a
  non-empty byte string that inflates back to its input; \<open>atob\<close> inverts \<open>btoa\<close>.
  \<open>keeps_payload\<close> says that the first block of the decoder leaves an encoded payload
  alone: parsing it as XML does not throw and finds no \<open>mxfile\<close> with a \<open>diagram\<close>.
  \<open>all_on\<close> holds of the default options.
\<close>

definition codec_laws :: "codec_env \<Rightarrow> bool" where
  "codec_laws env \<longleftrightarrow>
     (\<forall>x u. encodeURIComponent env x = Some u \<longrightarrow> decodeURIComponent env u = Some x) \<and>
     (\<forall>u. u \<noteq> [] \<longrightarrow> (\<exists>d. deflateRaw env u = Some d \<and> d \<noteq> [] \<and> inflateRaw env d = Some u)) \<and>
     (\<forall>d. \<exists>b. btoa env d = Some b \<and> atob env b = Some d)"

definition keeps_payload :: "codec_env \<Rightarrow> bool" where
  "keeps_payload env \<longleftrightarrow> (\<forall>d b. btoa env d = Some b \<longrightarrow> unwrapDocument env b = Some b)"

text \<open>
  \<open>payload_not_xml\<close>: the parser throws on every text that \<open>btoa\<close> returns. This is the
  parser of the Node branch of \<open>parseXml\<close>, which reports a text that is not well-formed
  XML by an exception: a base64 text holds no tag.
\<close>

definition payload_not_xml :: "codec_env \<Rightarrow> bool" where
  "payload_not_xml env \<longleftrightarrow> (\<forall>d b. btoa env d = Some b \<longrightarrow> parseXml env b = None)"

definition all_on :: "codec_options option \<Rightarrow> bool" where
  "all_on options \<longleftrightarrow> flag base64 options \<and> flag deflate options \<and> flag urlEncode options"

text \<open>
  Two environments for the examples. Their coders mark the text with a leading letter;
  their percent coder rejects a text with a \<open>%\<close> in it. The strict parser throws on a
  text that does not start with a tag, as a parser does that reports malformed XML by an
  exception; the lenient one returns an error document instead.
\<close>

definition untag :: "char \<Rightarrow> string \<Rightarrow> string option" where
  "untag t s = (case s of [] \<Rightarrow> None | c # cs \<Rightarrow> if c = t then Some cs else None)"

definition toy_env :: "(string \<Rightarrow> xml_document option) \<Rightarrow> codec_env" where
  "toy_env parser =
     \<lparr>parseXml = parser,
      atob = untag CHR ''b'',
      btoa = (\<lambda>s. Some (CHR ''b'' # s)),
      inflateRaw = untag CHR ''d'',
      deflateRaw = (\<lambda>s. Some (CHR ''d'' # s)),
      encodeURIComponent = (\<lambda>s. if CHR ''%'' \<in> set s then None else Some s),
      decodeURIComponent = (\<lambda>s. if CHR ''%'' \<in> set s then None else Some s)\<rparr>"

definition strict_parser :: "string \<Rightarrow> xml_document option" where
  "strict_parser s =
     (if starts_with s ''<'' then Some \<lparr>documentElement = Some \<lparr>nodeName = ''mxGraphModel'', diagramTexts = []\<rparr>\<rparr>
      else None)"

definition lenient_parser :: "string \<Rightarrow> xml_document option" where
  "lenient_parser s =
     (if starts_with s ''<'' then Some \<lparr>documentElement = Some \<lparr>nodeName = ''mxGraphModel'', diagramTexts = []\<rparr>\<rparr>
      else Some \<lparr>documentElement = Some \<lparr>nodeName = ''parsererror'', diagramTexts = []\<rparr>\<rparr>)"


section \<open>Flattener: parent chains\<close>

text \<open>
  \<open>parent_path h c path\<close>: following \<open>parent\<close> references from \<open>c\<close> visits exactly
  the tree nodes of \<open>path\<close>, \<open>c\<close> first, and ends at a node without a parent. A tree
  node is a container when it carries a node id; the synthetic root and the placeholders
  carry none. \<open>chain_values\<close> lists the values of the containers on a path, outermost
  first; \<open>container_ancestors\<close> counts the containers strictly above the first node of
  a path.
\<close>

inductive parent_path :: "heap \<Rightarrow> cref option \<Rightarrow> cref list \<Rightarrow> bool" for h where
  path_end: "parent_path h None []"
| path_up: "parent_path h (t_parent (h c)) cs \<Longrightarrow> parent_path h (Some c) (c # cs)"

definition chain_values :: "heap \<Rightarrow> cref list \<Rightarrow> cell list" where
  "chain_values h path = map (\<lambda>r. t_value (h r)) (rev (filter (\<lambda>r. truthy (t_nodeId (h r))) path))"

definition container_ancestors :: "heap \<Rightarrow> cref list \<Rightarrow> nat" where
  "container_ancestors h path = length (filter (\<lambda>r. truthy (t_nodeId (h r))) (tl path))"

text \<open>
  What the table is expected to hold for one assumption: the number of its rows, and the
  first five columns of each (assumption id, question id, sub-question id, assumption
  text, sub-question text), the sub-questions counted from 1.
\<close>

definition row_count :: "assumption \<Rightarrow> nat" where
  "row_count a = 1 + (\<Sum>q\<leftarrow>a_questions a. length (questions q))"

definition expected_rows :: "assumption \<Rightarrow> cell list list" where
  "expected_rows a =
     [Some (prefixId a), None, None, Some (value' a), None]
     # concat (map (\<lambda>q. map (\<lambda>k. [Some (prefixId a), Some (prefixId q),
                                    Some (prefix a @ ''('' @ prefixId a @ ''):'' @ prefix q @ ''(''
                                          @ prefixId q @ ''):'' @ show_nat k),
                                    Some (value' a), Some (questions q ! (k - 1))])
                             [1..<Suc (length (questions q))])
                   (a_questions a))"

text \<open>
  \<open>finite_chains data paths apaths\<close>: \<open>paths\<close> are the parent paths of the tree nodes
  of \<open>all\<close> and \<open>apaths\<close> those of the assumptions' containers, in order; so no parent
  chain that the flattener follows is cyclic.
\<close>

definition finite_chains :: "flat_data \<Rightarrow> cref list list \<Rightarrow> cref list list \<Rightarrow> bool" where
  "finite_chains data paths apaths \<longleftrightarrow>
     list_all2 (\<lambda>c p. parent_path (c_heap (containers data)) (Some c) p) (c_all (containers data)) paths \<and>
     list_all2 (\<lambda>a p. parent_path (c_heap (containers data)) (container a) p) (assumptions data) apaths"


section \<open>Example: one container, one assumption in it, one question with two sub-questions\<close>

definition ex_container :: mxCell where
  "ex_container = \<lparr>mx_id = ''C1'', mx_value = Some ''Group'', mx_style = Some ''swimlane;container=1'',
     mx_parent = Some ''1'', mx_edge = None, mx_source = None, mx_target = None\<rparr>"

definition ex_assumption_cell :: mxCell where
  "ex_assumption_cell = \<lparr>mx_id = ''n1'', mx_value = Some ''A: Widget works'', mx_style = Some ''rounded=1'',
     mx_parent = Some ''C1'', mx_edge = None, mx_source = None, mx_target = None\<rparr>"

definition ex_question_cell :: mxCell where
  "ex_question_cell = \<lparr>mx_id = ''n2'', mx_value = Some ''Q: Header<br>- Does it scale?<br>- Is it fast?'',
     mx_style = Some ''rounded=1'', mx_parent = Some ''1'', mx_edge = None, mx_source = None,
     mx_target = None\<rparr>"

definition ex_edge_cell :: mxCell where
  "ex_edge_cell = \<lparr>mx_id = ''e1'', mx_value = None, mx_style = Some ''edgeStyle=none'',
     mx_parent = Some ''1'', mx_edge = Some ''1'', mx_source = Some ''n2'', mx_target = Some ''n1''\<rparr>"

definition ex_doc :: document where
  "ex_doc = [ex_container, ex_assumption_cell, ex_question_cell, ex_edge_cell]"

text \<open>The entities of the example, as the parsers and the linker produce them.\<close>

definition ex_question :: question where
  "ex_question = \<lparr>node = ex_question_cell, nodeId = ''n2'', prefix = ''Q'', prefixId = ''auto_1'',
     value' = ''Header<br>- Does it scale?<br>- Is it fast?'',
     rawValue = ''Q: Header<br>- Does it scale?<br>- Is it fast?'',
     questions = [''Does it scale?'', ''Is it fast?''], targetIds = [Some ''n1'']\<rparr>"

definition ex_assumption :: assumption where
  "ex_assumption = \<lparr>node = ex_assumption_cell, nodeId = ''n1'', prefix = ''A'', prefixId = ''auto_1'',
     value' = ''Widget works'', rawValue = ''A: Widget works'', parentId = Some ''C1'',
     a_questions = [ex_question], container = None\<rparr>"

text \<open>
  What the container extractor returns on the example, and on a document without a
  container.
\<close>

definition ex_containers :: containers_result where
  "ex_containers =
     \<lparr>c_heap = (\<lambda>_. createNode)
        (Root := createNode\<lparr>t_children := [Cached ''C1'']\<rparr>,
         Cached ''1'' := createNode\<lparr>t_children := [Cached ''C1'']\<rparr>,
         Cached ''C1'' := \<lparr>t_node = Some ex_container, t_nodeId = Some ''C1'',
                           t_parent = Some (Cached ''1''), t_children = [],
                           t_value = Some ''Group''\<rparr>),
      c_root = Root,
      c_all = [Cached ''1'', Cached ''C1'']\<rparr>"

definition ex_no_containers :: containers_result where
  "ex_no_containers = \<lparr>c_heap = (\<lambda>_. createNode), c_root = Root, c_all = []\<rparr>"

definition ex_data :: flat_data where
  "ex_data = \<lparr>containers = ex_containers,
              assumptions = transformConnectContainers ex_containers [ex_assumption]\<rparr>"


section \<open>Container extractor: what one turn of the loop attaches\<close>

text \<open>
  \<open>plain_keys doc\<close>: no container of the document has an inherited name as its id or as
  the key of its parent. On such a document no read of the cache finds an inherited value
  and no turn of the loop throws; \<open>plain_step\<close> is what a turn then does to the state
  (\<open>plain_ensure\<close> and \<open>plain_connect\<close> are its two parts), and \<open>plain_state\<close> is the
  state after the loop.
\<close>

definition plain_keys :: "document \<Rightarrow> bool" where
  "plain_keys doc \<longleftrightarrow>
     (\<forall>n \<in> set (containerNodes_of doc).
        mx_id n \<notin> set inherited_names \<and> key_of (mx_parent n) \<notin> set inherited_names)"

definition plain_connect :: "cref \<Rightarrow> cref \<Rightarrow> heap \<Rightarrow> heap" where
  "plain_connect p c h =
     (let h1 = h(p := (h p)\<lparr>t_children := t_children (h p) @ [c]\<rparr>)
      in h1(c := (h1 c)\<lparr>t_parent := Some p\<rparr>))"

definition plain_ensure :: "string \<Rightarrow> container_state \<Rightarrow> container_state" where
  "plain_ensure k st =
     (if k \<in> set (cs_keys st) then st
      else \<lparr>cs_heap = (cs_heap st)(Cached k := createNode), cs_keys = cs_keys st @ [k]\<rparr>)"

definition plain_step :: "string list \<Rightarrow> mxCell \<Rightarrow> container_state \<Rightarrow> container_state" where
  "plain_step ids n st =
     (let st1 = plain_ensure (mx_id n) st;
          cur = Cached (mx_id n);
          h2 = (cs_heap st1)(cur := (cs_heap st1 cur)
                 \<lparr>t_node := Some n, t_nodeId := Some (mx_id n),
                  t_value := Some (or_empty (mx_value n))\<rparr>);
          parentId = mx_parent n;
          h3 = (if no_parent_container ids parentId
                then plain_connect Root cur h2 else h2);
          st4 = plain_ensure (key_of parentId) (st1\<lparr>cs_heap := h3\<rparr>)
      in st4\<lparr>cs_heap := plain_connect (Cached (key_of parentId)) cur (cs_heap st4)\<rparr>)"

definition plain_state :: "document \<Rightarrow> container_state" where
  "plain_state doc =
     fold (plain_step (map mx_id (containerNodes_of doc))) (containerNodes_of doc) init_state"

text \<open>
  \<open>wf_cache\<close>: an address whose key is not in the cache holds a fresh node.
  \<open>attached ids n r\<close>: the children that the turn for node \<open>n\<close> appends to the tree node
  at \<open>r\<close>.
\<close>

definition wf_cache :: "container_state \<Rightarrow> bool" where
  "wf_cache st \<longleftrightarrow> (\<forall>k. k \<notin> set (cs_keys st) \<longrightarrow> cs_heap st (Cached k) = createNode)"

definition attached :: "string list \<Rightarrow> mxCell \<Rightarrow> cref \<Rightarrow> cref list" where
  "attached ids n r =
     (if r = Root \<and> no_parent_container ids (mx_parent n) then [Cached (mx_id n)] else [])
     @ (if r = Cached (key_of (mx_parent n)) then [Cached (mx_id n)] else [])"

text \<open>A container cell with a given id and parent attribute, for the examples.\<close>

definition ex_cell :: "string \<Rightarrow> string option \<Rightarrow> mxCell" where
  "ex_cell i p = \<lparr>mx_id = i, mx_value = None, mx_style = Some ''container=1'',
     mx_parent = p, mx_edge = None, mx_source = None, mx_target = None\<rparr>"

text \<open>
  \<open>populated_iff_parented h\<close>: in the heap \<open>h\<close> exactly the tree nodes that carry a
  node id have a parent reference, and no node id is empty.
\<close>

definition populated_iff_parented :: "heap \<Rightarrow> bool" where
  "populated_iff_parented h \<longleftrightarrow>
     (\<forall>r. (t_parent (h r) = None \<longleftrightarrow> t_nodeId (h r) = None) \<and>
          (\<forall>i. t_nodeId (h r) = Some i \<longrightarrow> i \<noteq> []))"


section \<open>Prefix extractor: declared identifiers\<close>

text \<open>
  \<open>declares dec prefix n pid\<close>: the decoded value of node \<open>n\<close> matches the tag grammar
  of the prefix with the explicit identifier \<open>pid\<close>. \<open>explicit_ids\<close> lists the
  identifiers declared by the nodes that carry an \<open>id\<close>, in document order.
\<close>

definition declares :: "(string \<Rightarrow> string) \<Rightarrow> string \<Rightarrow> mxCell \<Rightarrow> string \<Rightarrow> bool" where
  "declares htmlDecode prefix' n pid \<longleftrightarrow>
     e_match (extractPrefixFromNode htmlDecode n prefix') \<and>
     e_prefixId (extractPrefixFromNode htmlDecode n prefix') = Some pid"

definition explicit_ids :: "(string \<Rightarrow> string) \<Rightarrow> string \<Rightarrow> mxCell list \<Rightarrow> string list" where
  "explicit_ids htmlDecode prefix' ns =
     concat (map (\<lambda>n. if mx_id n \<noteq> [] \<and> e_match (extractPrefixFromNode htmlDecode n prefix')
                         then (case e_prefixId (extractPrefixFromNode htmlDecode n prefix') of
                                 None \<Rightarrow> [] | Some pid \<Rightarrow> [pid])
                         else []) ns)"

text \<open>
  Example nodes. The examples take the identity for \<open>htmlDecode\<close>: their values hold no
  character reference.
\<close>

definition ex_idless :: mxCell where
  "ex_idless = \<lparr>mx_id = [], mx_value = Some ''A(x): u'', mx_style = None, mx_parent = None,
     mx_edge = None, mx_source = None, mx_target = None\<rparr>"

definition ex_first :: mxCell where
  "ex_first = \<lparr>mx_id = ''n1'', mx_value = Some ''A(x): v'', mx_style = None, mx_parent = None,
     mx_edge = None, mx_source = None, mx_target = None\<rparr>"

definition ex_second :: mxCell where
  "ex_second = \<lparr>mx_id = ''n2'', mx_value = Some ''a(x): w'', mx_style = None, mx_parent = None,
     mx_edge = None, mx_source = None, mx_target = None\<rparr>"

definition ex_auto :: mxCell where
  "ex_auto = \<lparr>mx_id = ''n3'', mx_value = Some ''A: y'', mx_style = None, mx_parent = None,
     mx_edge = None, mx_source = None, mx_target = None\<rparr>"


section \<open>Question extractor: what an edge records\<close>

text \<open>
  \<open>recorded known k e\<close>: what the edge \<open>e\<close> appends to the target list of the question
  with node id \<open>k\<close>, when \<open>known\<close> are the node ids of the questions: the target of
  \<open>e\<close> if its source is \<open>k\<close>; the source of \<open>e\<close> if its source is no question and its
  target is \<open>k\<close>. \<open>resolved_targets qs es j\<close>: the target list of the question at
  position \<open>j\<close> after the edges \<open>es\<close>; a question whose node id a later question
  shares is not in the dictionary and records nothing.
\<close>


definition record_edge :: "mxCell \<Rightarrow> question list \<Rightarrow> question list" where
  "record_edge n qs =
     (case last_with (\<lambda>q. nodeId q = key_of (mx_source n)) qs of
        Some i \<Rightarrow> push_target i (mx_target n) qs
      | None \<Rightarrow>
          (case last_with (\<lambda>q. nodeId q = key_of (mx_target n)) qs of
             Some i \<Rightarrow> push_target i (mx_source n) qs
           | None \<Rightarrow> qs))"




definition ex_q1 :: mxCell where
  "ex_q1 = \<lparr>mx_id = ''q1'', mx_value = Some ''Q: a<br>- b?'', mx_style = None, mx_parent = Some ''1'',
     mx_edge = None, mx_source = None, mx_target = None\<rparr>"

definition ex_q2 :: mxCell where
  "ex_q2 = \<lparr>mx_id = ''q2'', mx_value = Some ''Q: c'', mx_style = None, mx_parent = Some ''1'',
     mx_edge = None, mx_source = None, mx_target = None\<rparr>"

definition ex_a1 :: mxCell where
  "ex_a1 = \<lparr>mx_id = ''a1'', mx_value = Some ''A: z'', mx_style = None, mx_parent = Some ''1'',
     mx_edge = None, mx_source = None, mx_target = None\<rparr>"

definition ex_edge :: "string \<Rightarrow> string \<Rightarrow> string \<Rightarrow> mxCell" where
  "ex_edge i s t = \<lparr>mx_id = i, mx_value = None, mx_style = None, mx_parent = Some ''1'',
     mx_edge = Some ''1'', mx_source = Some s, mx_target = Some t\<rparr>"



section \<open>Theorems: the codec\<close>

lemmas codec_defs = decodeDrawio_def encodeDrawio_def unwrapDocument_def decodeBase64_def decodeDeflate_def
  decodeUrl_def encodeUrl_def encodeDeflate_def encodeBase64_def

text \<open>
  C7: whenever a stage that runs throws (the XML parse of the unwrap block, \<open>atob\<close>,
  \<open>inflateRaw\<close> or \<open>decodeURIComponent\<close> in the decoder;
  \<open>encodeURIComponent\<close>, \<open>deflateRaw\<close> or \<open>btoa\<close> in the encoder), the call returns
  null, whatever the earlier stages produced; and when the data that reaches the deflate
  stage is empty, the stage is skipped: the result is that of the next stage on the empty
  text, whatever \<open>inflateRaw\<close> or \<open>deflateRaw\<close> would do.
\<close>

theorem codec_failure_is_null:
  "(parseXml env data = None \<longrightarrow> decodeDrawio env options data = None) \<and>
   (\<forall>d0. unwrapDocument env data = Some d0 \<and> flag base64 options \<and> atob env d0 = None
      \<longrightarrow> decodeDrawio env options data = None) \<and>
   (\<forall>d0 d1. unwrapDocument env data = Some d0 \<and> decodeBase64 env options d0 = Some d1 \<and>
      flag deflate options \<and> d1 \<noteq> [] \<and> inflateRaw env d1 = None
      \<longrightarrow> decodeDrawio env options data = None) \<and>
   (\<forall>d0 d1 d2. unwrapDocument env data = Some d0 \<and> decodeBase64 env options d0 = Some d1 \<and>
      decodeDeflate env options d1 = Some d2 \<and> flag urlEncode options \<and> decodeURIComponent env d2 = None
      \<longrightarrow> decodeDrawio env options data = None) \<and>
   (\<forall>d0. unwrapDocument env data = Some d0 \<and> decodeBase64 env options d0 = Some []
      \<longrightarrow> decodeDrawio env options data = decodeUrl env options []) \<and>
   (flag urlEncode options \<and> encodeURIComponent env data = None
      \<longrightarrow> encodeDrawio env options data = None) \<and>
   (\<forall>e0. encodeUrl env options data = Some e0 \<and> flag deflate options \<and> e0 \<noteq> [] \<and>
      deflateRaw env e0 = None \<longrightarrow> encodeDrawio env options data = None) \<and>
   (\<forall>e0 e1. encodeUrl env options data = Some e0 \<and> encodeDeflate env options e0 = Some e1 \<and>
      flag base64 options \<and> btoa env e1 = None \<longrightarrow> encodeDrawio env options data = None) \<and>
   (encodeUrl env options data = Some [] \<longrightarrow> encodeDrawio env options data = encodeBase64 env options [])"
  by (simp add: codec_defs)

theorem codec_failure_is_null_witness:
  "parseXml (toy_env strict_parser) ''bdx'' = None \<and>
   decodeDrawio (toy_env strict_parser) None ''bdx'' = None \<and>
   unwrapDocument (toy_env lenient_parser) ''x'' = Some ''x'' \<and> atob (toy_env lenient_parser) ''x'' = None \<and>
   decodeDrawio (toy_env lenient_parser) None ''x'' = None \<and>
   decodeBase64 (toy_env lenient_parser) None ''bx'' = Some ''x'' \<and> inflateRaw (toy_env lenient_parser) ''x'' = None \<and>
   decodeDrawio (toy_env lenient_parser) None ''bx'' = None \<and>
   decodeDeflate (toy_env lenient_parser) None ''d%'' = Some ''%'' \<and>
   decodeURIComponent (toy_env lenient_parser) ''%'' = None \<and>
   decodeDrawio (toy_env lenient_parser) None ''bd%'' = None \<and>
   decodeDrawio (toy_env lenient_parser) None ''b'' = Some [] \<and>
   encodeDrawio ((toy_env lenient_parser)\<lparr>encodeURIComponent := \<lambda>_. None\<rparr>) None ''x'' = None \<and>
   encodeDrawio ((toy_env lenient_parser)\<lparr>deflateRaw := \<lambda>_. None\<rparr>) None ''x'' = None \<and>
   encodeDrawio ((toy_env lenient_parser)\<lparr>btoa := \<lambda>_. None\<rparr>) None ''x'' = None \<and>
   encodeDrawio ((toy_env lenient_parser)\<lparr>deflateRaw := \<lambda>_. None\<rparr>) None [] = Some ''b''"
  using codec_failure_is_null [of "toy_env strict_parser" "''bdx''" None]
    codec_failure_is_null [of "toy_env lenient_parser" "''x''" None]
    codec_failure_is_null [of "toy_env lenient_parser" "''bx''" None]
    codec_failure_is_null [of "toy_env lenient_parser" "''bd%''" None]
    codec_failure_is_null [of "toy_env lenient_parser" "''b''" None]
    codec_failure_is_null [of "(toy_env lenient_parser)\<lparr>encodeURIComponent := \<lambda>_. None\<rparr>" "''x''" None]
    codec_failure_is_null [of "(toy_env lenient_parser)\<lparr>deflateRaw := \<lambda>_. None\<rparr>" "''x''" None]
    codec_failure_is_null [of "(toy_env lenient_parser)\<lparr>btoa := \<lambda>_. None\<rparr>" "''x''" None]
    codec_failure_is_null [of "(toy_env lenient_parser)\<lparr>deflateRaw := \<lambda>_. None\<rparr>" "[]" None]
  by (simp add: toy_env_def strict_parser_def lenient_parser_def starts_with_def untag_def flag_def codec_defs)

lemma toy_laws: "codec_laws (toy_env parser)"
  by (simp add: codec_laws_def toy_env_def untag_def)

lemma lenient_keeps: "keeps_payload (toy_env lenient_parser)"
  by (simp add: keeps_payload_def toy_env_def lenient_parser_def unwrapDocument_def starts_with_def)

lemma strict_throws: "payload_not_xml (toy_env strict_parser)"
  by (simp add: payload_not_xml_def toy_env_def strict_parser_def starts_with_def)

text \<open>
  A parser throws on every payload when it throws on every text without \<open><\<close>, as a
  parser does that demands a document element, and \<open>btoa\<close> returns texts over the
  base64 alphabet, which has no \<open><\<close>.
\<close>

lemma base64_is_not_xml:
  assumes "\<And>d b. btoa env d = Some b \<Longrightarrow> CHR ''<'' \<notin> set b"
    and "\<And>s. CHR ''<'' \<notin> set s \<Longrightarrow> parseXml env s = None"
  shows "payload_not_xml env"
  using assms by (simp add: payload_not_xml_def)

subsection \<open>The stages after the unwrap block\<close>

text \<open>
  When the unwrap block hands on the payload that the encoder made of \<open>x\<close>, the decoder
  returns \<open>x\<close>; and the encoder succeeds whenever the percent coder does.
\<close>

lemma encode_succeeds:
  assumes laws: "codec_laws env" and on: "all_on options"
    and enc: "encodeURIComponent env x = Some u"
  shows "\<exists>p d. encodeDrawio env options x = Some p \<and> btoa env d = Some p"
proof (cases "u = []")
  case True
  from laws obtain b where "btoa env [] = Some b" unfolding codec_laws_def by blast
  with True on enc show ?thesis
    by (auto simp: all_on_def encodeDrawio_def encodeUrl_def encodeDeflate_def encodeBase64_def)
next
  case False
  with laws obtain d where d: "deflateRaw env u = Some d" unfolding codec_laws_def by blast
  from laws obtain b where "btoa env d = Some b" unfolding codec_laws_def by blast
  with False on enc d show ?thesis
    by (auto simp: all_on_def encodeDrawio_def encodeUrl_def encodeDeflate_def encodeBase64_def)
qed

lemma decode_unwrapped:
  assumes laws: "codec_laws env" and on: "all_on options"
    and enc: "encodeDrawio env options x = Some p"
    and un: "unwrapDocument env data = Some p"
  shows "decodeDrawio env options data = Some x"
proof -
  from enc on obtain u where u: "encodeURIComponent env x = Some u"
    by (auto simp: all_on_def encodeDrawio_def encodeUrl_def split: option.splits)
  with laws have dec: "decodeURIComponent env u = Some x"
    by (simp add: codec_laws_def)
  show ?thesis
  proof (cases "u = []")
    case True
    from laws obtain b where b: "btoa env [] = Some b" "atob env b = Some []"
      unfolding codec_laws_def by blast
    with True on u enc have "p = b"
      by (simp add: all_on_def encodeDrawio_def encodeUrl_def encodeDeflate_def encodeBase64_def)
    with True on dec b un show ?thesis
      by (simp add: all_on_def decodeDrawio_def decodeBase64_def decodeDeflate_def decodeUrl_def)
  next
    case False
    with laws obtain d where d: "deflateRaw env u = Some d" "d \<noteq> []" "inflateRaw env d = Some u"
      unfolding codec_laws_def by blast
    from laws obtain b where b: "btoa env d = Some b" "atob env b = Some d"
      unfolding codec_laws_def by blast
    with False on u enc d have "p = b"
      by (simp add: all_on_def encodeDrawio_def encodeUrl_def encodeDeflate_def encodeBase64_def)
    with False on dec b d un show ?thesis
      by (simp add: all_on_def decodeDrawio_def decodeBase64_def decodeDeflate_def decodeUrl_def)
  qed
qed

text \<open>
  So the decoder inverts the encoder where the parser does not throw on the payload and
  finds no \<open>mxfile\<close> in it, as a parser does that returns an error document for a text
  that is not XML; and it decodes a document whose parse is an \<open>mxfile\<close> with the
  payload as the text of its first \<open>diagram\<close>.
\<close>

lemma round_trip_when_payload_is_kept:
  assumes laws: "codec_laws env" and kp: "keeps_payload env" and on: "all_on options"
    and enc: "encodeURIComponent env x = Some u"
  shows "\<exists>p. encodeDrawio env options x = Some p \<and> decodeDrawio env options p = Some x"
proof -
  from encode_succeeds [OF laws on enc] obtain p d where
    p: "encodeDrawio env options x = Some p" "btoa env d = Some p" by blast
  from kp p(2) have "unwrapDocument env p = Some p" by (simp add: keeps_payload_def)
  from decode_unwrapped [OF laws on p(1) this] p(1) show ?thesis by blast
qed

lemma round_trip_through_mxfile:
  assumes laws: "codec_laws env" and on: "all_on options"
    and enc: "encodeDrawio env options x = Some p"
    and wrapped: "parseXml env data =
                    Some \<lparr>documentElement = Some \<lparr>nodeName = ''mxfile'', diagramTexts = p # ts\<rparr>\<rparr>"
  shows "decodeDrawio env options data = Some x"
proof -
  from wrapped have "unwrapDocument env data = Some p" by (simp add: unwrapDocument_def)
  from decode_unwrapped [OF laws on enc this] show ?thesis .
qed

lemma ex_round_trip_lenient:
  "encodeDrawio (toy_env lenient_parser) None ''<a/>'' = Some ''bd<a/>'' \<and>
   decodeDrawio (toy_env lenient_parser) None ''bd<a/>'' = Some ''<a/>''"
  by (simp add: toy_env_def lenient_parser_def starts_with_def untag_def flag_def codec_defs)

subsection \<open>The round trip under a parser that throws\<close>

text \<open>
  C1: decoding the result of encoding \<open>x\<close> is to return \<open>x\<close>, for every \<open>x\<close> that
  survives percent-encoding. The decoder parses its input as XML before anything else and
  returns null when the parser throws. Under a parser that throws on a base64 text, which
  the parser of the Node branch of \<open>parseXml\<close> does, the round trip fails for every
  \<open>x\<close>: whenever the encoder, with the base64 stage on, returns a payload, the decoder
  returns null on it.
\<close>

theorem round_trip_fails_when_parser_throws:
  assumes nx: "payload_not_xml env" and b64: "flag base64 options"
    and enc: "encodeDrawio env options x = Some p"
  shows "decodeDrawio env options p = None"
proof -
  from enc b64 obtain d where "btoa env d = Some p"
    by (auto simp: encodeDrawio_def encodeBase64_def split: option.splits)
  with nx have "parseXml env p = None" by (simp add: payload_not_xml_def)
  then show ?thesis by (simp add: decodeDrawio_def unwrapDocument_def)
qed

theorem round_trip_fails_when_parser_throws_witness:
  "payload_not_xml (toy_env strict_parser) \<and> flag base64 None \<and>
   encodeURIComponent (toy_env strict_parser) ''<a/>'' = Some ''<a/>'' \<and>
   encodeDrawio (toy_env strict_parser) None ''<a/>'' = Some ''bd<a/>'' \<and>
   decodeDrawio (toy_env strict_parser) None ''bd<a/>'' = None"
proof -
  have e: "encodeURIComponent (toy_env strict_parser) ''<a/>'' = Some ''<a/>''"
    by (simp add: toy_env_def)
  have on: "flag base64 None" by (simp add: flag_def)
  have enc: "encodeDrawio (toy_env strict_parser) None ''<a/>'' = Some ''bd<a/>''"
    by (simp add: toy_env_def flag_def codec_defs)
  from round_trip_fails_when_parser_throws [OF strict_throws on enc] strict_throws on e enc
  show ?thesis by simp
qed

text \<open>
  The encoder does return a payload for every \<open>x\<close> that survives percent-encoding when
  the coders return (lemma \<open>encode_succeeds\<close>), so under such coders and the default
  options no such \<open>x\<close> makes the round trip.
\<close>

lemma no_round_trip_when_parser_throws:
  assumes "codec_laws env" and "payload_not_xml env" and "all_on options"
    and "encodeURIComponent env x = Some u"
  shows "\<exists>p. encodeDrawio env options x = Some p \<and> decodeDrawio env options p = None"
proof -
  from encode_succeeds [OF assms(1,3,4)] obtain p d where
    p: "encodeDrawio env options x = Some p" "btoa env d = Some p" by blast
  from assms(2) p(2) have "parseXml env p = None" by (simp add: payload_not_xml_def)
  then have "decodeDrawio env options p = None"
    by (simp add: decodeDrawio_def unwrapDocument_def)
  with p(1) show ?thesis by blast
qed

section \<open>Theorems: the table flattener\<close>

subsection \<open>The loops\<close>

lemma container_depth_path:
  "parent_path h cur path \<Longrightarrow> cur = Some c \<Longrightarrow> container_depth h c d = Some (d + length path - 1)"
proof (induction arbitrary: c d rule: parent_path.induct)
  case path_end
  then show ?case by simp
next
  case (path_up c' cs)
  then have c: "c' = c" by simp
  show ?case
  proof (cases "t_parent (h c)")
    case None
    with path_up.hyps c have "cs = []" by (auto elim: parent_path.cases)
    with None show ?thesis by (subst container_depth.simps) simp
  next
    case (Some p)
    with path_up.IH [of p "d + 1"] c have "container_depth h p (d + 1) = Some (d + 1 + length cs - 1)" by simp
    moreover from Some path_up.hyps c have "cs \<noteq> []" by (auto elim: parent_path.cases)
    ultimately show ?thesis using Some by (subst container_depth.simps) (cases cs; simp)
  qed
qed

lemma container_chain_path:
  "parent_path h cur path \<Longrightarrow> container_chain h cur acc = Some (chain_values h path @ acc)"
proof (induction arbitrary: acc rule: parent_path.induct)
  case path_end
  then show ?case by (subst container_chain.simps) (simp add: chain_values_def)
next
  case (path_up c cs)
  show ?case
    by (subst container_chain.simps) (simp add: path_up.IH chain_values_def)
qed

lemma pad_containers_eq:
  "pad_containers m cs = cs @ replicate (m - length cs) (Some [])"
proof (induction m cs rule: pad_containers.induct)
  case (1 m cs)
  show ?case
  proof (cases "length cs < m")
    case True
    then have "m - length cs = Suc (m - Suc (length cs))" by simp
    with True 1 show ?thesis
      by (subst pad_containers.simps) (simp add: replicate_app_Cons_same)
  next
    case False
    then show ?thesis by (subst pad_containers.simps) simp
  qed
qed

lemma Math_max_nonempty: "ds \<noteq> [] \<Longrightarrow> Math_max ds = Num (Max (set ds))"
proof (induction ds)
  case Nil then show ?case by simp
next
  case (Cons d ds)
  show ?case
  proof (cases "ds = []")
    case True then show ?thesis by simp
  next
    case False
    with Cons show ?thesis by (simp add: max.commute)
  qed
qed

lemma those_list_all2: "list_all2 (\<lambda>x y. f x = Some y) xs ys \<Longrightarrow> those (map f xs) = Some ys"
  by (induction rule: list_all2_induct) auto

lemma depths_of_paths:
  assumes "list_all2 (\<lambda>c p. parent_path h (Some c) p) cs paths"
  shows "those (map (\<lambda>c. container_depth h c 0) cs) = Some (map (\<lambda>p. length p - 1) paths)"
proof -
  have "list_all2 (\<lambda>c d. container_depth h c 0 = Some d) cs (map (\<lambda>p. length p - 1) paths)"
    unfolding list_all2_map2
    by (rule list_all2_mono [OF assms]) (simp add: container_depth_path)
  then show ?thesis by (rule those_list_all2)
qed

lemma rows_of_paths:
  assumes "list_all2 (\<lambda>a p. parent_path h (container a) p) as apaths"
  shows "those (map (assumption_rows h m) as)
         = Some (map (\<lambda>(a, p). rows_from_chain m a (chain_values h p)) (zip as apaths))"
  using assms
  by (induction rule: list_all2_induct) (auto simp: assumption_rows_def container_chain_path)

lemma doFormatCsv_table:
  assumes fc: "finite_chains data paths apaths"
    and ne: "c_all (containers data) \<noteq> []"
    and m: "m = Max (set (map (\<lambda>p. length p - 1) paths))"
    and bound: "m < 4294967296"
  shows "doFormatCsv data =
         Some (Inr (csvHeaders m
                    # concat (map (\<lambda>(a, p). rows_from_chain m a (chain_values (c_heap (containers data)) p))
                                   (zip (assumptions data) apaths))))"
proof -
  let ?h = "c_heap (containers data)"
  from fc have p1: "list_all2 (\<lambda>c p. parent_path ?h (Some c) p) (c_all (containers data)) paths"
    and p2: "list_all2 (\<lambda>a p. parent_path ?h (container a) p) (assumptions data) apaths"
    by (simp_all add: finite_chains_def)
  define ds where "ds = map (\<lambda>p. length p - 1) paths"
  from p1 ne have "paths \<noteq> []" by (auto simp: list_all2_Nil2)
  then have "Math_max ds = Num m"
    by (simp add: Math_max_nonempty m ds_def)
  with bound have arr: "js_Array (Math_max ds) = Inr m"
    by (simp add: js_Array_def)
  have dep: "those (map (\<lambda>c. container_depth ?h c 0) (c_all (containers data))) = Some ds"
    unfolding ds_def by (rule depths_of_paths [OF p1])
  show ?thesis
    unfolding doFormatCsv_def Let_def
    by (simp add: dep arr rows_of_paths [OF p2])
qed

lemma createRow_take5:
  "take 5 (createRow a k cs q i) =
     [Some (prefixId a),
      (case q of None \<Rightarrow> None | Some q' \<Rightarrow> Some (prefixId q')),
      (case i of None \<Rightarrow> None | Some j \<Rightarrow> (case q of None \<Rightarrow> None | Some q' \<Rightarrow>
          Some (prefix a @ ''('' @ prefixId a @ ''):'' @ prefix q' @ ''('' @ prefixId q' @ ''):'' @ show_nat (j + 1)))),
      Some (value' a),
      (case q of None \<Rightarrow> None | Some q' \<Rightarrow> (case i of None \<Rightarrow> None | Some j \<Rightarrow>
          if j < length (questions q') then Some (questions q' ! j) else None))]"
  by (simp add: createRow_def)

lemma createRow_drop6: "drop 6 (createRow a k cs q i) = cs"
  by (simp add: createRow_def)

lemma shifted_upt: "map f [1..<Suc n] = map (\<lambda>i. f (i + 1)) [0..<n]"
proof -
  have "[1..<Suc n] = map Suc [0..<n]" by (simp add: map_Suc_upt)
  then show ?thesis by (simp add: comp_def)
qed

lemma rows_from_chain_take5: "map (take 5) (rows_from_chain m a chain) = expected_rows a"
proof -
  have inner: "map (\<lambda>i. take 5 (createRow a k cs (Some q) (Some i))) [0..<length (questions q)]
        = map (\<lambda>k. [Some (prefixId a), Some (prefixId q),
                     Some (prefix a @ ''('' @ prefixId a @ ''):'' @ prefix q @ ''(''
                           @ prefixId q @ ''):'' @ show_nat k),
                     Some (value' a), Some (questions q ! (k - 1))])
              [1..<Suc (length (questions q))]" for k cs q
    unfolding shifted_upt by (simp add: createRow_take5)
  have head: "take 5 (createRow a k cs None None) = [Some (prefixId a), None, None, Some (value' a), None]"
    for k cs
    by (simp add: createRow_take5)
  show ?thesis
    unfolding rows_from_chain_def expected_rows_def Let_def
    by (simp add: head map_concat comp_def inner del: upt_Suc)
qed

lemma rows_from_chain_length: "length (rows_from_chain m a chain) = row_count a"
  by (simp add: rows_from_chain_def row_count_def Let_def length_concat comp_def)

lemma all_same_replicate: "(\<And>x. x \<in> set xs \<Longrightarrow> f x = y) \<Longrightarrow> map f xs = replicate (length xs) y"
  by (induction xs) auto

lemma rows_from_chain_drop6:
  "map (drop 6) (rows_from_chain m a chain)
   = replicate (row_count a) (chain @ replicate (m - length chain) (Some []))"
proof -
  have "map (drop 6) (rows_from_chain m a chain)
     = replicate (length (rows_from_chain m a chain)) (chain @ replicate (m - length chain) (Some []))"
    by (rule all_same_replicate)
      (auto simp: rows_from_chain_def Let_def createRow_drop6 pad_containers_eq)
  then show ?thesis by (simp add: rows_from_chain_length)
qed


subsection \<open>The example\<close>

lemmas pc_defs = parseContainers_def containerNodes_of_def select_containers_def
  starts_with_def init_state_def container_step_def ensure_cached_def cache_get_def inherited_names_def
  Let_def key_of_def own_keys_order_def
  is_index_key_def read_nat_def digit_val_def no_parent_container_def connectNodes_def createNode_def
  or_empty_def

lemmas ex_defs = ex_data_def ex_containers_def ex_container_def ex_assumption_cell_def
  ex_question_cell_def ex_question_def ex_assumption_def transformConnectContainers_def

text \<open>
  The container extractor on the example: the container is listed by the root and by the
  placeholder cached under its parent key, and its parent reference is the placeholder.
\<close>

lemma ex_parse: "parseContainers [ex_container] = Inr ex_containers"
  by (simp add: pc_defs ex_container_def ex_containers_def fun_eq_iff)

lemma ex_parse_none: "parseContainers [ex_assumption_cell] = Inr ex_no_containers"
  by (simp add: pc_defs ex_assumption_cell_def ex_no_containers_def)

lemma ex_parse_empty: "parseContainers [] = Inr ex_no_containers"
  by (simp add: pc_defs ex_no_containers_def)

lemma ex_parsed: "parseContainers [ex_container] = Inr (containers ex_data)"
  by (simp add: ex_parse ex_data_def)

lemma ex_all: "c_all (containers ex_data) = [Cached ''1'', Cached ''C1'']"
  by (simp add: ex_defs pc_defs)

lemma ex_assumptions: "assumptions ex_data = [ex_assumption\<lparr>container := Some (Cached ''C1'')\<rparr>]"
  by (simp add: ex_defs pc_defs)

lemma ex_parent_C1: "t_parent (c_heap (containers ex_data) (Cached ''C1'')) = Some (Cached ''1'')"
  by (simp add: ex_defs pc_defs)

lemma ex_parent_1: "t_parent (c_heap (containers ex_data) (Cached ''1'')) = None"
  by (simp add: ex_defs pc_defs)

lemma ex_path_1: "parent_path (c_heap (containers ex_data)) (Some (Cached ''1'')) [Cached ''1'']"
  by (rule path_up) (simp add: ex_parent_1 path_end)

lemma ex_path_C1:
  "parent_path (c_heap (containers ex_data)) (Some (Cached ''C1'')) [Cached ''C1'', Cached ''1'']"
  by (rule path_up) (simp add: ex_parent_C1 ex_path_1)

lemma ex_finite_chains:
  "finite_chains ex_data [[Cached ''1''], [Cached ''C1'', Cached ''1'']] [[Cached ''C1'', Cached ''1'']]"
  by (simp add: finite_chains_def ex_all ex_assumptions ex_path_1 ex_path_C1)

lemma ex_chain_values:
  "chain_values (c_heap (containers ex_data)) [Cached ''C1'', Cached ''1''] = [Some ''Group'']"
  by (simp add: chain_values_def truthy_def ex_defs pc_defs)

subsection \<open>Rows\<close>

text \<open>
  For every linked graph whose \<open>all\<close> list is not empty and whose parent chains end
  (and are shorter than \<open>2^32\<close>), the flattener returns a table: a header and then, per
  assumption in order, one row whose question id, sub-question id and question are null,
  followed by one row per linked question (in link order) and position in its
  sub-question list (in parse order), whose sub-question id is
  \<open>prefix(id):prefix(id):k\<close> with \<open>k\<close> counting from 1; so the number of data rows is
  the sum over the assumptions of one plus the sub-question counts of their linked
  questions.
\<close>

theorem flattener_rows:
  assumes "finite_chains data paths apaths"
    and "c_all (containers data) \<noteq> []"
    and "Max (set (map (\<lambda>p. length p - 1) paths)) < 4294967296"
  shows "\<exists>header rows. doFormatCsv data = Some (Inr (header # rows)) \<and>
           map (take 5) rows = concat (map expected_rows (assumptions data)) \<and>
           length rows = (\<Sum>a\<leftarrow>assumptions data. row_count a)"
proof -
  let ?h = "c_heap (containers data)"
  let ?m = "Max (set (map (\<lambda>p. length p - 1) paths))"
  let ?rows = "concat (map (\<lambda>(a, p). rows_from_chain ?m a (chain_values ?h p)) (zip (assumptions data) apaths))"
  from assms(1) have len: "length (assumptions data) = length apaths"
    by (auto simp: finite_chains_def dest: list_all2_lengthD)
  have tab: "doFormatCsv data = Some (Inr (csvHeaders ?m # ?rows))"
    by (rule doFormatCsv_table [OF assms(1,2) refl assms(3)])
  have "map (take 5) ?rows = concat (map (\<lambda>(a, p). expected_rows a) (zip (assumptions data) apaths))"
    by (simp add: map_concat comp_def case_prod_unfold rows_from_chain_take5)
  also have "\<dots> = concat (map expected_rows (map fst (zip (assumptions data) apaths)))"
    by (simp add: comp_def case_prod_unfold)
  also have "\<dots> = concat (map expected_rows (assumptions data))"
    using len by simp
  finally have r5: "map (take 5) ?rows = concat (map expected_rows (assumptions data))" .
  have "length ?rows = (\<Sum>x\<leftarrow>zip (assumptions data) apaths. row_count (fst x))"
    by (simp add: length_concat comp_def case_prod_unfold rows_from_chain_length)
  also have "\<dots> = (\<Sum>a\<leftarrow>map fst (zip (assumptions data) apaths). row_count a)"
    by (simp add: comp_def)
  also have "\<dots> = (\<Sum>a\<leftarrow>assumptions data. row_count a)"
    using len by simp
  finally have "length ?rows = (\<Sum>a\<leftarrow>assumptions data. row_count a)" .
  with tab r5 show ?thesis by blast
qed

lemma ex_expected_rows:
  "expected_rows (ex_assumption\<lparr>container := Some (Cached ''C1'')\<rparr>) =
     [[Some ''auto_1'', None, None, Some ''Widget works'', None],
      [Some ''auto_1'', Some ''auto_1'', Some ''A(auto_1):Q(auto_1):1'', Some ''Widget works'',
       Some ''Does it scale?''],
      [Some ''auto_1'', Some ''auto_1'', Some ''A(auto_1):Q(auto_1):2'', Some ''Widget works'',
       Some ''Is it fast?'']]"
  by (simp add: expected_rows_def ex_defs show_nat.simps digit_char_def)

lemma ex_row_count: "row_count (ex_assumption\<lparr>container := Some (Cached ''C1'')\<rparr>) = 3"
  by (simp add: row_count_def ex_defs)

theorem flattener_rows_witness:
  "finite_chains ex_data [[Cached ''1''], [Cached ''C1'', Cached ''1'']] [[Cached ''C1'', Cached ''1'']] \<and>
   c_all (containers ex_data) \<noteq> [] \<and>
   (\<exists>header rows. doFormatCsv ex_data = Some (Inr (header # rows)) \<and>
      map (take 5) rows =
        [[Some ''auto_1'', None, None, Some ''Widget works'', None],
         [Some ''auto_1'', Some ''auto_1'', Some ''A(auto_1):Q(auto_1):1'', Some ''Widget works'',
          Some ''Does it scale?''],
         [Some ''auto_1'', Some ''auto_1'', Some ''A(auto_1):Q(auto_1):2'', Some ''Widget works'',
          Some ''Is it fast?'']] \<and>
      length rows = 3)"
proof -
  have ne: "c_all (containers ex_data) \<noteq> []" by (simp add: ex_all)
  have b: "Max (set (map (\<lambda>p. length p - 1) [[Cached ''1''], [Cached ''C1'', Cached ''1'']])) < 4294967296"
    by simp
  from flattener_rows [OF ex_finite_chains ne b] ex_finite_chains ne
  show ?thesis by (simp add: ex_assumptions ex_expected_rows ex_row_count)
qed

subsection \<open>No tree node, no table\<close>

text \<open>
  C10: when the \<open>all\<close> list of the containers is empty, \<open>Math.max\<close> of the depths is
  \<open>-Infinity\<close>, \<open>Array(-Infinity)\<close> throws a RangeError while the header is built, and
  the flattener returns no table, whatever the assumptions are.
\<close>

theorem flattener_needs_a_tree_node:
  "c_all (containers data) = [] \<Longrightarrow>
   Math_max (map (\<lambda>c. 0) (c_all (containers data))) = NegInfinity \<and>
   js_Array NegInfinity = Inl RangeError \<and>
   doFormatCsv data = Some (Inl RangeError)"
  by (simp add: doFormatCsv_def js_Array_def)

theorem flattener_needs_a_tree_node_witness:
  "parseContainers [] = Inr ex_no_containers \<and>
   c_all (containers \<lparr>containers = ex_no_containers, assumptions = [ex_assumption]\<rparr>) = [] \<and>
   doFormatCsv \<lparr>containers = ex_no_containers, assumptions = [ex_assumption]\<rparr> = Some (Inl RangeError)"
proof -
  have e: "c_all (containers \<lparr>containers = ex_no_containers, assumptions = [ex_assumption]\<rparr>) = []"
    by (simp add: ex_no_containers_def)
  from flattener_needs_a_tree_node [OF e] e ex_parse_empty show ?thesis by simp
qed

subsection \<open>Depth columns\<close>

text \<open>
  C2, as amended: the header has \<open>maxContainerDepth\<close> columns \<open>container_depth1\<close>,
  ..., where \<open>maxContainerDepth\<close> is the greatest number of parent references above any
  tree node of \<open>all\<close> (the length of its parent path less one: the node without a parent
  at the top is counted, so a top-level container has depth 1, not 0); and in every data
  row the depth entries are the values of the containers on the parent path of that
  assumption's container, outermost first, followed by empty strings up to
  \<open>maxContainerDepth\<close>.
\<close>

theorem flattener_depth_columns:
  assumes "finite_chains data paths apaths"
    and "c_all (containers data) \<noteq> []"
    and "m = Max (set (map (\<lambda>p. length p - 1) paths))"
    and "m < 4294967296"
  shows "\<exists>rows. doFormatCsv data = Some (Inr (csvHeaders m # rows)) \<and>
           drop 6 (csvHeaders m) = map (\<lambda>k. Some (''container_depth'' @ show_nat k)) [1..<Suc m] \<and>
           length (drop 6 (csvHeaders m)) = m \<and>
           map (drop 6) rows =
             concat (map (\<lambda>(a, p). replicate (row_count a)
                                      (chain_values (c_heap (containers data)) p
                                       @ replicate (m - length (chain_values (c_heap (containers data)) p))
                                           (Some [])))
                         (zip (assumptions data) apaths))"
proof -
  let ?h = "c_heap (containers data)"
  let ?rows = "concat (map (\<lambda>(a, p). rows_from_chain m a (chain_values ?h p)) (zip (assumptions data) apaths))"
  have tab: "doFormatCsv data = Some (Inr (csvHeaders m # ?rows))"
    by (rule doFormatCsv_table [OF assms])
  have hd: "drop 6 (csvHeaders m) = map (\<lambda>k. Some (''container_depth'' @ show_nat k)) [1..<Suc m]"
    unfolding shifted_upt by (simp add: csvHeaders_def)
  have len: "length (drop 6 (csvHeaders m)) = m"
    by (simp add: csvHeaders_def)
  have "map (drop 6) ?rows =
        concat (map (\<lambda>(a, p). replicate (row_count a)
                                 (chain_values ?h p @ replicate (m - length (chain_values ?h p)) (Some [])))
                    (zip (assumptions data) apaths))"
    by (simp add: map_concat comp_def case_prod_unfold rows_from_chain_drop6)
  with tab hd len show ?thesis by blast
qed

text \<open>The table of the example.\<close>

lemma ex_table:
  "doFormatCsv ex_data =
     Some (Inr [csvHeaders 1,
       [Some ''auto_1'', None, None, Some ''Widget works'', None, Some ''Group'', Some ''Group''],
       [Some ''auto_1'', Some ''auto_1'', Some ''A(auto_1):Q(auto_1):1'', Some ''Widget works'',
        Some ''Does it scale?'', Some ''Group'', Some ''Group''],
       [Some ''auto_1'', Some ''auto_1'', Some ''A(auto_1):Q(auto_1):2'', Some ''Widget works'',
        Some ''Is it fast?'', Some ''Group'', Some ''Group'']])"
proof -
  have ne: "c_all (containers ex_data) \<noteq> []" by (simp add: ex_all)
  have m: "(1::nat) = Max (set (map (\<lambda>p. length p - 1) [[Cached ''1''], [Cached ''C1'', Cached ''1'']]))"
    by simp
  have "doFormatCsv ex_data =
        Some (Inr (csvHeaders 1 # concat (map (\<lambda>(a, p). rows_from_chain 1 a (chain_values (c_heap (containers ex_data)) p))
              (zip (assumptions ex_data) [[Cached ''C1'', Cached ''1'']]))))"
    by (rule doFormatCsv_table [OF ex_finite_chains ne m]) simp
  then show ?thesis
    by (simp add: ex_assumptions ex_chain_values rows_from_chain_def pad_containers_eq createRow_def
        truthy_def or_empty_def ex_assumption_def ex_question_def show_nat.simps digit_char_def Let_def)
qed

theorem flattener_depth_columns_witness:
  "parseContainers [ex_container] = Inr (containers ex_data) \<and>
   finite_chains ex_data [[Cached ''1''], [Cached ''C1'', Cached ''1'']] [[Cached ''C1'', Cached ''1'']] \<and>
   c_all (containers ex_data) \<noteq> [] \<and>
   (\<exists>rows. doFormatCsv ex_data = Some (Inr (csvHeaders 1 # rows)) \<and>
      drop 6 (csvHeaders 1) = [Some ''container_depth1''] \<and>
      map (drop 6) rows = [[Some ''Group''], [Some ''Group''], [Some ''Group'']])"
proof -
  have ne: "c_all (containers ex_data) \<noteq> []" by (simp add: ex_all)
  have m: "(1::nat) = Max (set (map (\<lambda>p. length p - 1) [[Cached ''1''], [Cached ''C1'', Cached ''1'']]))"
    by simp
  have b: "(1::nat) < 4294967296" by simp
  from flattener_depth_columns [OF ex_finite_chains ne m b]
  have "\<exists>rows. doFormatCsv ex_data = Some (Inr (csvHeaders 1 # rows)) \<and>
      drop 6 (csvHeaders 1) = [Some ''container_depth1''] \<and>
      map (drop 6) rows = [[Some ''Group''], [Some ''Group''], [Some ''Group'']]"
    by (auto simp: ex_assumptions ex_chain_values ex_row_count show_nat.simps digit_char_def
        numeral_3_eq_3)
  with ex_parsed ex_finite_chains ne show ?thesis by blast
qed

text \<open>
  With \<open>maxContainerDepth\<close> read as the greatest number of container ancestors above a
  node, the claim fails: in the example no tree node has a container above it, and the
  table has one depth column, which holds the assumption's own container.
\<close>

theorem flattener_depth_columns_counterexample:
  "parseContainers [ex_container] = Inr (containers ex_data) \<and>
   finite_chains ex_data [[Cached ''1''], [Cached ''C1'', Cached ''1'']] [[Cached ''C1'', Cached ''1'']] \<and>
   map (container_ancestors (c_heap (containers ex_data))) [[Cached ''1''], [Cached ''C1'', Cached ''1'']]
     = [0, 0] \<and>
   map_option (map_sum id (\<lambda>table. map (drop 6) table)) (doFormatCsv ex_data)
     = Some (Inr [[Some ''container_depth1''], [Some ''Group''], [Some ''Group''], [Some ''Group'']])"
  by (simp add: ex_parsed ex_finite_chains ex_table)
    (simp add: container_ancestors_def csvHeaders_def truthy_def show_nat.simps digit_char_def ex_defs pc_defs)


section \<open>Theorems: the container extractor\<close>

lemma wf_init: "wf_cache init_state"
  by (simp add: wf_cache_def init_state_def)

lemma ensure_heap: "wf_cache st \<Longrightarrow> cs_heap (plain_ensure k st) = cs_heap st"
  by (auto simp: wf_cache_def plain_ensure_def)

lemma ensure_keys: "set (cs_keys (plain_ensure k st)) = insert k (set (cs_keys st))"
  by (auto simp: plain_ensure_def)

lemma ensure_wf: "wf_cache st \<Longrightarrow> wf_cache (plain_ensure k st)"
  by (auto simp: wf_cache_def plain_ensure_def)

lemma step_heap:
  assumes "wf_cache st"
  shows "cs_heap (plain_step ids n st) =
    plain_connect (Cached (key_of (mx_parent n))) (Cached (mx_id n))
      ((if no_parent_container ids (mx_parent n) then plain_connect Root (Cached (mx_id n)) else id)
        ((cs_heap st)(Cached (mx_id n) := (cs_heap st (Cached (mx_id n)))
                 \<lparr>t_node := Some n, t_nodeId := Some (mx_id n), t_value := Some (or_empty (mx_value n))\<rparr>)))"
proof -
  let ?st1 = "plain_ensure (mx_id n) st"
  have h1: "cs_heap ?st1 = cs_heap st" by (rule ensure_heap [OF assms])
  have wf1: "wf_cache ?st1" by (rule ensure_wf [OF assms])
  have wf2: "wf_cache (?st1\<lparr>cs_heap := h'\<rparr>)" if "\<And>k. k \<notin> set (cs_keys ?st1) \<Longrightarrow> h' (Cached k) = createNode" for h'
    using that by (simp add: wf_cache_def)
  show ?thesis
    unfolding plain_step_def Let_def
    apply (subst ensure_heap)
     apply (rule wf2)
    using wf1 apply (auto simp: wf_cache_def ensure_keys plain_connect_def Let_def h1)[1]
    apply (simp add: h1)
    done
qed

lemma step_keys:
  "set (cs_keys (plain_step ids n st)) = insert (key_of (mx_parent n)) (insert (mx_id n) (set (cs_keys st)))"
  by (simp add: plain_step_def Let_def ensure_keys)

lemma step_wf: "wf_cache st \<Longrightarrow> wf_cache (plain_step ids n st)"
  unfolding wf_cache_def [of "plain_step ids n st"]
  by (auto simp: step_heap step_keys plain_connect_def Let_def wf_cache_def)

lemma step_children:
  "wf_cache st \<Longrightarrow>
   t_children (cs_heap (plain_step ids n st) r) = t_children (cs_heap st r) @ attached ids n r"
  by (auto simp: step_heap plain_connect_def Let_def attached_def)

lemma step_parent:
  "wf_cache st \<Longrightarrow>
   t_parent (cs_heap (plain_step ids n st) r) =
     (if r = Cached (mx_id n) then Some (Cached (key_of (mx_parent n))) else t_parent (cs_heap st r))"
  by (auto simp: step_heap plain_connect_def Let_def)

lemma step_nodeId:
  "wf_cache st \<Longrightarrow>
   t_nodeId (cs_heap (plain_step ids n st) r) =
     (if r = Cached (mx_id n) then Some (mx_id n) else t_nodeId (cs_heap st r))"
  by (auto simp: step_heap plain_connect_def Let_def)

lemma fold_wf: "wf_cache st \<Longrightarrow> wf_cache (fold (plain_step ids) ns st)"
  by (induction ns arbitrary: st) (auto simp: step_wf)

lemma fold_children:
  "wf_cache st \<Longrightarrow>
   t_children (cs_heap (fold (plain_step ids) ns st) r)
   = t_children (cs_heap st r) @ concat (map (\<lambda>n. attached ids n r) ns)"
  by (induction ns arbitrary: st) (auto simp: step_wf step_children)

lemma fold_parent_other:
  "wf_cache st \<Longrightarrow> (\<And>m. m \<in> set ns \<Longrightarrow> Cached (mx_id m) \<noteq> r) \<Longrightarrow>
   t_parent (cs_heap (fold (plain_step ids) ns st) r) = t_parent (cs_heap st r)"
  by (induction ns arbitrary: st) (auto simp: step_wf step_parent)

lemma fold_parent:
  "wf_cache st \<Longrightarrow> distinct (map mx_id ns) \<Longrightarrow> n \<in> set ns \<Longrightarrow>
   t_parent (cs_heap (fold (plain_step ids) ns st) (Cached (mx_id n)))
   = Some (Cached (key_of (mx_parent n)))"
proof (induction ns arbitrary: st)
  case Nil
  then show ?case by simp
next
  case (Cons a ns)
  show ?case
  proof (cases "n \<in> set ns")
    case True
    with Cons show ?thesis by (simp add: step_wf)
  next
    case False
    with Cons.prems have a: "a = n" by simp
    from Cons.prems a have "mx_id n \<notin> mx_id ` set ns" by simp
    then have other: "Cached (mx_id m) \<noteq> Cached (mx_id n)" if "m \<in> set ns" for m
      using that by (metis imageI cref.inject)
    show ?thesis
      using Cons.prems(1) other
      by (simp add: a fold_parent_other step_wf step_parent)
  qed
qed

lemma fold_nodeId:
  "wf_cache st \<Longrightarrow> n \<in> set ns \<Longrightarrow>
   t_nodeId (cs_heap (fold (plain_step ids) ns st) (Cached (mx_id n))) = Some (mx_id n)"
proof (induction ns arbitrary: st rule: rev_induct)
  case Nil
  then show ?case by simp
next
  case (snoc a ns)
  then show ?case by (auto simp: fold_wf step_nodeId)
qed


subsection \<open>Documents without inherited names\<close>

lemma ensure_plain: "k \<notin> set inherited_names \<Longrightarrow> ensure_cached k st = plain_ensure k st"
  by (simp add: ensure_cached_def plain_ensure_def cache_get_def)

lemma get_after_ensure:
  "k \<notin> set inherited_names \<Longrightarrow> cache_get (plain_ensure k st) k = Some (Cached k)"
  by (simp add: cache_get_def plain_ensure_def)

lemma connect_plain:
  "connectNodes Root c h = Inr (plain_connect Root c h)"
  "connectNodes (Cached k) c h = Inr (plain_connect (Cached k) c h)"
  by (simp_all add: connectNodes_def plain_connect_def)

lemma step_plain:
  assumes "mx_id n \<notin> set inherited_names" and "key_of (mx_parent n) \<notin> set inherited_names"
  shows "container_step ids n st = Inr (plain_step ids n st)"
  unfolding container_step_def plain_step_def Let_def
  using assms by (simp add: ensure_plain get_after_ensure connect_plain)

lemma loop_plain:
  "(\<And>n. n \<in> set ns \<Longrightarrow> mx_id n \<notin> set inherited_names \<and> key_of (mx_parent n) \<notin> set inherited_names)
   \<Longrightarrow> container_loop ids ns st = Inr (fold (plain_step ids) ns st)"
  by (induction ns arbitrary: st) (simp_all add: step_plain)

lemma parse_plain:
  assumes "plain_keys doc"
  shows "parseContainers doc =
           Inr \<lparr>c_heap = cs_heap (plain_state doc), c_root = Root,
                c_all = map Cached (own_keys_order (cs_keys (plain_state doc)))\<rparr>"
proof -
  have "container_loop (map mx_id (containerNodes_of doc)) (containerNodes_of doc) init_state
        = Inr (plain_state doc)"
    unfolding plain_state_def using assms by (intro loop_plain) (simp add: plain_keys_def)
  then show ?thesis by (simp add: parseContainers_def Let_def)
qed

text \<open>
  On a document without inherited names and with distinct container ids, the extractor
  returns a forest in which a container whose \<open>parent\<close> attribute is the id of another
  container has that container's tree node as its parent reference, and that tree node is
  the only one that lists it among its children.
\<close>

lemma resolved_parent_is_unique:
  assumes n: "n \<in> set (containerNodes_of doc)"
    and d: "distinct (map mx_id (containerNodes_of doc))"
    and pk: "plain_keys doc"
    and p: "mx_parent n = Some p" "p \<in> set (map mx_id (containerNodes_of doc))" "p \<noteq> mx_id n"
  shows "\<exists>r. parseContainers doc = Inr r \<and>
            t_parent (c_heap r (Cached (mx_id n))) = Some (Cached p) \<and>
            t_nodeId (c_heap r (Cached p)) = Some p \<and>
            {c. Cached (mx_id n) \<in> set (t_children (c_heap r c))} = {Cached p}"
proof -
  let ?cns = "containerNodes_of doc"
  let ?ids = "map mx_id ?cns"
  let ?h = "cs_heap (plain_state doc)"
  have h: "?h = cs_heap (fold (plain_step ?ids) ?cns init_state)"
    by (simp add: plain_state_def)
  have ch0: "t_children (cs_heap init_state r) = []" for r
    by (simp add: init_state_def createNode_def)
  have ch: "t_children (?h r) = concat (map (\<lambda>m. attached ?ids m r) ?cns)" for r
    unfolding h by (simp add: fold_children [OF wf_init] ch0)
  have uniq: "m = n" if "m \<in> set ?cns" "mx_id m = mx_id n" for m
    using that n d by (meson distinct_map inj_onD)
  have nonempty: "mx_id m \<noteq> []" if "m \<in> set ?cns" for m
    using that by (simp add: containerNodes_of_def)
  from p(2) obtain pn where pn: "pn \<in> set ?cns" "mx_id pn = p" by auto
  from p(2) nonempty have pne: "p \<noteq> []" by auto
  have par: "t_parent (?h (Cached (mx_id n))) = Some (Cached p)"
    unfolding h using fold_parent [OF wf_init d n] p(1) by (simp add: key_of_def)
  have nid: "t_nodeId (?h (Cached p)) = Some p"
    unfolding h using fold_nodeId [OF wf_init pn(1)] pn(2) by simp
  have res: "\<not> no_parent_container ?ids (mx_parent n)"
    using p pne by (simp add: no_parent_container_def)
  have "Cached (mx_id n) \<in> set (t_children (?h r)) \<longleftrightarrow> r = Cached p" for r
  proof
    assume "Cached (mx_id n) \<in> set (t_children (?h r))"
    then obtain m where m: "m \<in> set ?cns" "Cached (mx_id n) \<in> set (attached ?ids m r)"
      unfolding ch by auto
    from m(2) have "mx_id m = mx_id n" by (auto simp: attached_def split: if_splits)
    with m(1) have "m = n" by (rule uniq)
    with m(2) res p(1) show "r = Cached p" by (auto simp: attached_def key_of_def split: if_splits)
  next
    assume "r = Cached p"
    with p(1) have "Cached (mx_id n) \<in> set (attached ?ids n r)" by (simp add: attached_def key_of_def)
    with n show "Cached (mx_id n) \<in> set (t_children (?h r))" unfolding ch by auto
  qed
  then have "{c. Cached (mx_id n) \<in> set (t_children (?h c))} = {Cached p}" by auto
  with par nid show ?thesis by (simp add: parse_plain [OF pk])
qed

text \<open>
  A container without a parent container is attached twice: the turn of the loop connects
  it to the root and then, on the same path, to the tree node cached under its parent
  key, so the root and that tree node both list it, and its parent reference is that tree
  node and not the root.
\<close>

lemma top_level_parent_is_placeholder:
  assumes n: "n \<in> set (containerNodes_of doc)"
    and d: "distinct (map mx_id (containerNodes_of doc))"
    and pk: "plain_keys doc"
    and np: "no_parent_container (map mx_id (containerNodes_of doc)) (mx_parent n)"
  shows "\<exists>r. parseContainers doc = Inr r \<and>
            Cached (mx_id n) \<in> set (t_children (c_heap r (c_root r))) \<and>
            Cached (mx_id n) \<in> set (t_children (c_heap r (Cached (key_of (mx_parent n))))) \<and>
            t_parent (c_heap r (Cached (mx_id n))) = Some (Cached (key_of (mx_parent n))) \<and>
            Cached (key_of (mx_parent n)) \<noteq> c_root r"
proof -
  let ?cns = "containerNodes_of doc"
  let ?ids = "map mx_id ?cns"
  let ?h = "cs_heap (plain_state doc)"
  have h: "?h = cs_heap (fold (plain_step ?ids) ?cns init_state)"
    by (simp add: plain_state_def)
  have par: "t_parent (?h (Cached (mx_id n))) = Some (Cached (key_of (mx_parent n)))"
    unfolding h by (rule fold_parent [OF wf_init d n])
  have "Cached (mx_id n) \<in> set (attached ?ids n (Cached (key_of (mx_parent n))))"
    by (simp add: attached_def)
  with n have c1: "Cached (mx_id n) \<in> set (t_children (?h (Cached (key_of (mx_parent n)))))"
    unfolding h by (auto simp: fold_children [OF wf_init])
  from np have "Cached (mx_id n) \<in> set (attached ?ids n Root)"
    by (simp add: attached_def)
  with n have c2: "Cached (mx_id n) \<in> set (t_children (?h Root))"
    unfolding h by (auto simp: fold_children [OF wf_init])
  from par c1 c2 show ?thesis by (simp add: parse_plain [OF pk])
qed

subsection \<open>A parent key that is an inherited name\<close>

lemma step_error: "container_step ids n st = Inl e \<Longrightarrow> e = TypeError"
  by (auto simp: container_step_def Let_def connectNodes_def split: option.splits sum.splits if_splits cref.splits)

lemma ensure_keys_disjoint:
  "set (cs_keys st) \<inter> set inherited_names = {} \<Longrightarrow>
   set (cs_keys (ensure_cached k st)) \<inter> set inherited_names = {}"
  by (auto simp: ensure_cached_def cache_get_def split: option.splits if_splits)

lemma step_keys_disjoint:
  assumes "set (cs_keys st) \<inter> set inherited_names = {}" and "container_step ids n st = Inr st'"
  shows "set (cs_keys st') \<inter> set inherited_names = {}"
proof -
  let ?st1 = "ensure_cached (mx_id n) st"
  have d1: "set (cs_keys ?st1) \<inter> set inherited_names = {}"
    by (rule ensure_keys_disjoint [OF assms(1)])
  have d4: "set (cs_keys (ensure_cached k (?st1\<lparr>cs_heap := h\<rparr>))) \<inter> set inherited_names = {}" for k h
    by (rule ensure_keys_disjoint) (simp add: d1)
  from assms(2) obtain h h' k where "st' = (ensure_cached k (?st1\<lparr>cs_heap := h\<rparr>))\<lparr>cs_heap := h'\<rparr>"
    by (auto simp: container_step_def Let_def split: option.splits sum.splits if_splits)
  with d4 show ?thesis by simp
qed

lemma step_throws:
  assumes "set (cs_keys st) \<inter> set inherited_names = {}"
    and "key_of (mx_parent n) \<in> set inherited_names"
  shows "container_step ids n st = Inl TypeError"
proof -
  let ?st1 = "ensure_cached (mx_id n) st"
  have d1: "set (cs_keys ?st1) \<inter> set inherited_names = {}"
    by (rule ensure_keys_disjoint [OF assms(1)])
  have g: "cache_get (ensure_cached (key_of (mx_parent n)) (?st1\<lparr>cs_heap := h\<rparr>)) (key_of (mx_parent n))
           = Some (Inherited (key_of (mx_parent n)))" for h
    using d1 assms(2) by (auto simp: ensure_cached_def cache_get_def)
  show ?thesis
    unfolding container_step_def Let_def
    by (auto simp: g connectNodes_def split: option.splits sum.splits cref.splits)
qed

lemma loop_throws:
  assumes "set (cs_keys st) \<inter> set inherited_names = {}"
    and "n \<in> set ns" and "key_of (mx_parent n) \<in> set inherited_names"
  shows "container_loop ids ns st = Inl TypeError"
  using assms
proof (induction ns arbitrary: st)
  case Nil
  then show ?case by simp
next
  case (Cons a ns)
  show ?case
  proof (cases "container_step ids a st")
    case (Inl e)
    with step_error [OF Inl] show ?thesis by simp
  next
    case (Inr st')
    from step_keys_disjoint [OF Cons.prems(1) Inr]
    have d: "set (cs_keys st') \<inter> set inherited_names = {}" .
    have "a \<noteq> n"
    proof
      assume "a = n"
      with step_throws [OF Cons.prems(1) Cons.prems(3), of ids] Inr show False by simp
    qed
    with Cons.prems(2) have "n \<in> set ns" by simp
    with Cons.IH [OF d _ Cons.prems(3)] Inr show ?thesis by simp
  qed
qed

text \<open>
  A container whose parent key is an inherited name makes the extractor throw: the cache
  answers for the name with a value that has no \<open>children\<close>, and no forest is returned.
\<close>

lemma inherited_parent_throws:
  assumes "n \<in> set (containerNodes_of doc)" and "key_of (mx_parent n) \<in> set inherited_names"
  shows "parseContainers doc = Inl TypeError"
proof -
  have "container_loop (map mx_id (containerNodes_of doc)) (containerNodes_of doc) init_state
        = Inl TypeError"
    by (rule loop_throws [OF _ assms]) (simp add: init_state_def)
  then show ?thesis by (simp add: parseContainers_def Let_def)
qed

lemma ex_inherited_parent:
  "parseContainers [ex_cell ''C1'' (Some ''constructor'')] = Inl TypeError"
  by (rule inherited_parent_throws [of "ex_cell ''C1'' (Some ''constructor'')"])
    (simp_all add: containerNodes_of_def select_containers_def ex_cell_def starts_with_def key_of_def
      inherited_names_def)

subsection \<open>Containers that share an id\<close>

text \<open>
  Two cells with the same id share one tree node: it is listed by the parent of each, and
  its parent reference is the parent of the last.
\<close>

lemma ex_shared_id:
  "map_sum id (\<lambda>r. (t_children (c_heap r (Cached ''P1'')), t_children (c_heap r (Cached ''P2'')),
                     t_parent (c_heap r (Cached ''X''))))
     (parseContainers [ex_cell ''P1'' None, ex_cell ''P2'' None, ex_cell ''X'' (Some ''P1''),
                       ex_cell ''X'' (Some ''P2'')])
   = Inr ([Cached ''X''], [Cached ''X''], Some (Cached ''P2''))"
  by (simp add: pc_defs ex_cell_def)

subsection \<open>A container without a parent container\<close>

text \<open>
  C5: a container whose parent is no container of the set is to be a direct child of the
  synthetic root, and no container is to have more than one parent. On the document that
  holds the one container \<open>C1\<close>, whose parent \<open>1\<close> is no container, the extractor
  returns \<open>ex_containers\<close>: the root lists \<open>C1\<close>, the placeholder cached under \<open>1\<close>
  lists it too, and the parent reference of \<open>C1\<close> is the placeholder, not the root.
\<close>

theorem top_level_container_has_two_parents:
  "mx_parent ex_container = Some ''1'' \<and>
   map mx_id (containerNodes_of [ex_container]) = [''C1''] \<and>
   parseContainers [ex_container] = Inr ex_containers \<and>
   c_root ex_containers = Root \<and>
   {c. Cached ''C1'' \<in> set (t_children (c_heap ex_containers c))} = {Root, Cached ''1''} \<and>
   t_parent (c_heap ex_containers (Cached ''C1'')) = Some (Cached ''1'') \<and>
   t_nodeId (c_heap ex_containers (Cached ''1'')) = None \<and>
   t_node (c_heap ex_containers (Cached ''1'')) = None"
proof -
  have "{c. Cached ''C1'' \<in> set (t_children (c_heap ex_containers c))} = {Root, Cached ''1''}"
    by (auto simp: ex_containers_def createNode_def split: if_splits)
  then show ?thesis
    by (simp add: ex_parse)
      (simp add: ex_containers_def createNode_def ex_container_def containerNodes_of_def
        select_containers_def starts_with_def)
qed

subsection \<open>Depth in the forest of the extractor\<close>

lemma step_populated:
  "wf_cache st \<Longrightarrow> mx_id n \<noteq> [] \<Longrightarrow> populated_iff_parented (cs_heap st) \<Longrightarrow>
   populated_iff_parented (cs_heap (plain_step ids n st))"
  unfolding populated_iff_parented_def
  by (simp add: step_parent step_nodeId)

lemma fold_populated:
  "wf_cache st \<Longrightarrow> (\<And>n. n \<in> set ns \<Longrightarrow> mx_id n \<noteq> []) \<Longrightarrow> populated_iff_parented (cs_heap st) \<Longrightarrow>
   populated_iff_parented (cs_heap (fold (plain_step ids) ns st))"
  by (induction ns arbitrary: st) (auto simp: step_wf step_populated)

lemma plain_populated: "populated_iff_parented (cs_heap (plain_state doc))"
proof -
  have init: "populated_iff_parented (cs_heap init_state)"
    by (simp add: populated_iff_parented_def init_state_def createNode_def)
  show ?thesis
    unfolding plain_state_def
    by (rule fold_populated [OF wf_init _ init]) (simp add: containerNodes_of_def)
qed

lemma path_of_populated:
  assumes "populated_iff_parented h"
  shows "parent_path h cur path \<Longrightarrow>
         length (filter (\<lambda>r. truthy (t_nodeId (h r))) path) = length path - 1"
proof (induction rule: parent_path.induct)
  case path_end
  then show ?case by simp
next
  case (path_up c cs)
  show ?case
  proof (cases "t_parent (h c)")
    case None
    with path_up.hyps have "cs = []" by (auto elim: parent_path.cases)
    moreover from None assms have "\<not> truthy (t_nodeId (h c))"
      by (simp add: populated_iff_parented_def truthy_def)
    ultimately show ?thesis by simp
  next
    case (Some p)
    with path_up.hyps have ne: "cs \<noteq> []" by (auto elim: parent_path.cases)
    from assms have eq: "(t_parent (h c) = None) = (t_nodeId (h c) = None)"
      and nonempty: "\<And>i. t_nodeId (h c) = Some i \<Longrightarrow> i \<noteq> []"
      by (simp_all add: populated_iff_parented_def)
    from eq Some obtain i where i: "t_nodeId (h c) = Some i" by auto
    with nonempty have "truthy (t_nodeId (h c))" by (simp add: truthy_def)
    with path_up.IH ne show ?thesis by (cases cs) simp_all
  qed
qed

text \<open>
  In the heap that \<open>parseContainers\<close> builds on a document without inherited names, the
  number of parent references above a tree node (the depth the flattener computes) is the
  number of containers above it, plus one when the node is itself a container: the node
  at the top of a parent chain is a placeholder without an id. It is also the length of
  the chain of container values the flattener collects from that node.
\<close>

theorem parsed_depth_counts_the_container:
  assumes "plain_keys doc" and "parseContainers doc = Inr r"
    and "parent_path (c_heap r) (Some c) path"
  shows "length path - 1 =
           container_ancestors (c_heap r) path + (if truthy (t_nodeId (c_heap r c)) then 1 else 0) \<and>
         length (chain_values (c_heap r) path) = length path - 1"
proof -
  from assms(1,2) have h: "c_heap r = cs_heap (plain_state doc)"
    by (auto simp: parse_plain)
  from assms(3) obtain cs where p: "path = c # cs" by (auto elim: parent_path.cases)
  have "populated_iff_parented (c_heap r)" unfolding h by (rule plain_populated)
  then have "length (filter (\<lambda>x. truthy (t_nodeId (c_heap r x))) path) = length path - 1"
    using assms(3) by (rule path_of_populated)
  then show ?thesis
    by (auto simp: container_ancestors_def chain_values_def p split: if_splits)
qed

theorem parsed_depth_counts_the_container_witness:
  "plain_keys [ex_container] \<and> parseContainers [ex_container] = Inr ex_containers \<and>
   parent_path (c_heap ex_containers) (Some (Cached ''C1'')) [Cached ''C1'', Cached ''1''] \<and>
   length [Cached ''C1'', Cached ''1''] - 1 =
     container_ancestors (c_heap ex_containers) [Cached ''C1'', Cached ''1''] + 1 \<and>
   container_ancestors (c_heap ex_containers) [Cached ''C1'', Cached ''1''] = 0"
proof -
  have pk: "plain_keys [ex_container]"
    by (simp add: plain_keys_def containerNodes_of_def select_containers_def ex_container_def
        starts_with_def key_of_def inherited_names_def)
  have p: "parent_path (c_heap ex_containers) (Some (Cached ''C1'')) [Cached ''C1'', Cached ''1'']"
    using ex_path_C1 by (simp add: ex_data_def)
  have t: "truthy (t_nodeId (c_heap ex_containers (Cached ''C1'')))"
    by (simp add: truthy_def ex_containers_def)
  from parsed_depth_counts_the_container [OF pk ex_parse p] t p pk ex_parse show ?thesis by simp
qed

section \<open>Theorems: the cleanup of the prefix extractor\<close>

lemmas rx_defs = cleanup_def replace_first_def regex_exec.simps genPrefixRegexp_def tagRegex_def chars_def
  charsI_def canonicalize_def is_space_def is_word_def is_dot_def replace_all.simps

lemma replace_all_no_match: "regex_exec r s 0 = None \<Longrightarrow> replace_all r s 0 = s"
  by (subst replace_all.simps) simp

lemma replace_first_no_match: "regex_exec r s 0 = None \<Longrightarrow> replace_first r s = s"
  by (simp add: replace_first_def)

subsection \<open>Where a match can end\<close>

text \<open>
  The states a pattern can end in, one operator at a time; a match never moves backwards
  and never leaves the subject.
\<close>

lemma rmatch_Seq_mem:
  "st' \<in> set (rmatch (Seq a b) s st) \<longleftrightarrow> (\<exists>x \<in> set (rmatch a s st). st' \<in> set (rmatch b s x))"
  by (subst rmatch.simps(6)) (auto simp del: rmatch.simps)

lemma rmatch_Alt_mem:
  "st' \<in> set (rmatch (Alt a b) s st) \<longleftrightarrow> st' \<in> set (rmatch a s st) \<or> st' \<in> set (rmatch b s st)"
  by (subst rmatch.simps(7)) (auto simp del: rmatch.simps)

lemma rmatch_Opt_mem:
  "st' \<in> set (rmatch (Opt a) s st) \<longleftrightarrow> st' = st \<or> st' \<in> set (rmatch a s st) \<and> fst st < fst st'"
  by (subst rmatch.simps(8)) (auto simp del: rmatch.simps)

lemma rmatch_Star_mem:
  "st' \<in> set (rmatch (Star a) s st) \<longleftrightarrow>
     st' = st \<or> (\<exists>x \<in> set (rmatch a s st). fst st < fst x \<and> fst x \<le> length s \<and> st' \<in> set (rmatch (Star a) s x))"
  by (subst rmatch.simps(9)) (auto simp del: rmatch.simps)

lemma rmatch_LazyStar_mem:
  "st' \<in> set (rmatch (LazyStar a) s st) \<longleftrightarrow>
     st' = st \<or> (\<exists>x \<in> set (rmatch a s st). fst st < fst x \<and> fst x \<le> length s \<and> st' \<in> set (rmatch (LazyStar a) s x))"
  by (subst rmatch.simps(10)) (auto simp del: rmatch.simps)

lemma rmatch_Group_mem:
  "st' \<in> set (rmatch (Group a) s (i, cap)) \<Longrightarrow> \<exists>c. (fst st', c) \<in> set (rmatch a s (i, cap))"
  by (subst (asm) rmatch.simps(11)) (auto simp del: rmatch.simps)

lemma rmatch_range:
  "st' \<in> set (rmatch r s st) \<Longrightarrow> fst st \<le> fst st' \<and> (fst st \<le> length s \<longrightarrow> fst st' \<le> length s)"
proof (induction r s st arbitrary: st' rule: rmatch.induct)
  case (1 s st)
  then show ?case by simp
next
  case (2 c s i cap)
  then show ?case by (simp split: if_splits)
next
  case (3 c s i cap)
  then show ?case by (simp split: if_splits)
next
  case (4 P s i cap)
  then show ?case by (simp split: if_splits)
next
  case (5 s i cap)
  then show ?case by (simp split: if_splits)
next
  case (6 a b s st)
  from "6.prems" obtain x where x: "x \<in> set (rmatch a s st)" "st' \<in> set (rmatch b s x)"
    unfolding rmatch_Seq_mem by blast
  from "6.IH"(1) [OF x(1)] "6.IH"(2) [OF x] show ?case by simp
next
  case (7 a b s st)
  from "7.prems" have "st' \<in> set (rmatch a s st) \<or> st' \<in> set (rmatch b s st)"
    unfolding rmatch_Alt_mem .
  with "7.IH" show ?case by blast
next
  case (8 a s st)
  from "8.prems" have "st' = st \<or> st' \<in> set (rmatch a s st) \<and> fst st < fst st'"
    unfolding rmatch_Opt_mem .
  then show ?case
  proof
    assume "st' = st"
    then show ?thesis by simp
  next
    assume "st' \<in> set (rmatch a s st) \<and> fst st < fst st'"
    then have "st' \<in> set (rmatch a s st)" ..
    from "8.IH" [OF this] show ?thesis .
  qed
next
  case (9 a s st)
  from "9.prems" consider "st' = st"
    | x where "x \<in> set (rmatch a s st)" "fst st < fst x \<and> fst x \<le> length s" "st' \<in> set (rmatch (Star a) s x)"
    unfolding rmatch_Star_mem [of st' a s st] by blast
  then show ?case
  proof cases
    case 1
    then show ?thesis by simp
  next
    case 2
    from "9.IH"(2) [OF 2(1) 2(2) 2(3)] 2(2) show ?thesis by simp
  qed
next
  case (10 a s st)
  from "10.prems" consider "st' = st"
    | x where "x \<in> set (rmatch a s st)" "fst st < fst x \<and> fst x \<le> length s" "st' \<in> set (rmatch (LazyStar a) s x)"
    unfolding rmatch_LazyStar_mem [of st' a s st] by blast
  then show ?case
  proof cases
    case 1
    then show ?thesis by simp
  next
    case 2
    from "10.IH"(2) [OF 2(1) 2(2) 2(3)] 2(2) show ?thesis by simp
  qed
next
  case (11 a s i cap)
  from rmatch_Group_mem [OF "11.prems"] obtain c where "(fst st', c) \<in> set (rmatch a s (i, cap))" ..
  from "11.IH" [OF this] show ?case by simp
qed

lemma regex_exec_None: "(\<And>i. rmatch r s (i, None) = []) \<Longrightarrow> regex_exec r s k = None"
proof (induction r s k rule: regex_exec.induct)
  case (1 r s lastIndex)
  then show ?case by (subst regex_exec.simps) simp
qed

lemma regex_exec_Some:
  "regex_exec r s k = Some (i, j, cap) \<Longrightarrow> i \<le> length s \<and> (j, cap) \<in> set (rmatch r s (i, None))"
proof (induction r s k rule: regex_exec.induct)
  case (1 r s lastIndex)
  show ?case
  proof (cases "length s < lastIndex")
    case True
    with "1.prems" show ?thesis by (subst (asm) regex_exec.simps) simp
  next
    case False
    show ?thesis
    proof (cases "rmatch r s (lastIndex, None)")
      case Nil
      with False "1.prems" have "regex_exec r s (Suc lastIndex) = Some (i, j, cap)"
        by (subst (asm) regex_exec.simps) simp
      from "1.IH" [OF False Nil this] show ?thesis .
    next
      case (Cons x xs)
      with False "1.prems" have "x = (j, cap)" "i = lastIndex"
        by (subst (asm) regex_exec.simps, cases x, simp)+
      with Cons False show ?thesis by simp
    qed
  qed
qed


lemma canonicalize_colon: "canonicalize c = CHR '':'' \<Longrightarrow> c = CHR '':''"
  by (auto simp: canonicalize_def split: option.splits if_splits)


lemma colon_step:
  assumes "st' \<in> set (rmatch (ChrI CHR '':'') s st)"
  shows "fst st < length s \<and> s ! fst st = CHR '':'' \<and> fst st' = Suc (fst st)"
proof -
  obtain i cap where st: "st = (i, cap)" by (cases st)
  from assms have c: "i < length s" "canonicalize (s ! i) = canonicalize CHR '':''" "st' = (Suc i, cap)"
    unfolding st by (simp_all split: if_splits)
  have "canonicalize CHR '':'' = CHR '':''" by (simp add: canonicalize_def)
  with c(2) have "s ! i = CHR '':''" by (simp add: canonicalize_colon)
  with c st show ?thesis by simp
qed

lemma prefix_consumes_colon:
  assumes "st' \<in> set (rmatch (genPrefixRegexp p) s st)"
  shows "\<exists>k. fst st \<le> k \<and> k < fst st' \<and> k < length s \<and> s ! k = CHR '':''"
proof -
  from assms obtain x1 x2 x3 x4 where
    x1: "x1 \<in> set (rmatch (Alt Bol (ChrI CHR ''>'')) s st)" and
    x2: "x2 \<in> set (rmatch (charsI p) s x1)" and
    x3: "x3 \<in> set (rmatch (Opt (Seq (ChrI CHR ''('') (Seq (Group (Seq (Cls is_word) (Star (Cls is_word))))
                                          (ChrI CHR '')'')))) s x2)" and
    x4: "x4 \<in> set (rmatch (ChrI CHR '':'') s x3)" and
    x5: "st' \<in> set (rmatch (Star (Cls is_space)) s x4)"
    unfolding genPrefixRegexp_def rmatch_Seq_mem by blast
  from rmatch_range [OF x1] rmatch_range [OF x2] rmatch_range [OF x3]
  have "fst st \<le> fst x3" by simp
  moreover from colon_step [OF x4]
  have "fst x3 < length s" "s ! fst x3 = CHR '':''" "fst x4 = Suc (fst x3)" by simp_all
  moreover from rmatch_range [OF x5] have "fst x4 \<le> fst st'" by simp
  ultimately show ?thesis by (intro exI [of _ "fst x3"]) simp
qed

lemma no_colon_no_prefix:
  assumes "CHR '':'' \<notin> set s"
  shows "rmatch (genPrefixRegexp p) s st = []"
proof (cases "rmatch (genPrefixRegexp p) s st")
  case Nil
  then show ?thesis .
next
  case (Cons x xs)
  then have "x \<in> set (rmatch (genPrefixRegexp p) s st)" by simp
  from prefix_consumes_colon [OF this] obtain k where "k < length s" "s ! k = CHR '':''" by blast
  then have "CHR '':'' \<in> set s" by (metis nth_mem)
  with assms show ?thesis by simp
qed

lemma no_lt_no_tag:
  assumes "CHR ''<'' \<notin> set s"
  shows "rmatch tagRegex s st = []"
proof (cases "rmatch tagRegex s st")
  case Nil
  then show ?thesis .
next
  case (Cons x xs)
  then have "x \<in> set (rmatch tagRegex s st)" by simp
  then obtain y where y: "y \<in> set (rmatch (Chr CHR ''<'') s st)"
    unfolding tagRegex_def rmatch_Seq_mem by blast
  obtain i cap where st: "st = (i, cap)" by (cases st)
  from y have "i < length s" "s ! i = CHR ''<''" unfolding st by (simp_all split: if_splits)
  then have "CHR ''<'' \<in> set s" by (metis nth_mem)
  with assms show ?thesis by simp
qed

subsection \<open>Values without tags and with at most one colon\<close>

text \<open>
  A text without \<open><\<close> holds no tag and a text without a colon holds no prefix token, so
  the cleanup leaves a text without either alone. On a text without \<open><\<close> and with at
  most one colon the cleanup removes at most the one token, colon included.
\<close>

lemma cleanup_plain:
  assumes "CHR ''<'' \<notin> set w"
  shows "cleanup prefix' w = replace_first (genPrefixRegexp prefix') w"
proof -
  have "replace_all tagRegex w 0 = w"
    by (rule replace_all_no_match, rule regex_exec_None, rule no_lt_no_tag, rule assms)
  then show ?thesis by (simp add: cleanup_def)
qed

lemma cleanup_fixed:
  assumes "CHR ''<'' \<notin> set w" and "CHR '':'' \<notin> set w"
  shows "cleanup prefix' w = w"
proof -
  have "regex_exec (genPrefixRegexp prefix') w 0 = None"
    by (rule regex_exec_None, rule no_colon_no_prefix, rule assms(2))
  then show ?thesis by (simp add: cleanup_plain [OF assms(1)] replace_first_def)
qed

lemma cleanup_removes_the_colon:
  assumes lt: "CHR ''<'' \<notin> set v"
    and colon: "length (filter (\<lambda>c. c = CHR '':'') v) \<le> 1"
  shows "cleanup prefix' v = v \<or>
         CHR ''<'' \<notin> set (cleanup prefix' v) \<and> CHR '':'' \<notin> set (cleanup prefix' v)"
proof (cases "regex_exec (genPrefixRegexp prefix') v 0")
  case None
  then have "cleanup prefix' v = v" by (simp add: cleanup_plain [OF lt] replace_first_def)
  then show ?thesis ..
next
  case (Some m)
  obtain i j cap where m: "m = (i, j, cap)" by (cases m)
  let ?w = "take i v @ drop j v"
  from Some m have w: "cleanup prefix' v = ?w" by (simp add: cleanup_plain [OF lt] replace_first_def)
  from regex_exec_Some [OF Some [unfolded m]]
  have i: "i \<le> length v" and mem: "(j, cap) \<in> set (rmatch (genPrefixRegexp prefix') v (i, None))"
    by simp_all
  from prefix_consumes_colon [OF mem] obtain k where
    k: "i \<le> k" "k < j" "k < length v" "v ! k = CHR '':''" by auto
  from rmatch_range [OF mem] i have j: "j \<le> length v" by simp
  let ?mid = "take (j - i) (drop i v)"
  have split: "v = take i v @ ?mid @ drop j v"
  proof -
    have "drop i v = ?mid @ drop (j - i) (drop i v)"
      by (rule append_take_drop_id [symmetric])
    moreover from k have "drop (j - i) (drop i v) = drop j v" by simp
    ultimately have "drop i v = ?mid @ drop j v" by (simp only:)
    then have "take i v @ drop i v = take i v @ ?mid @ drop j v" by simp
    then show ?thesis by simp
  qed
  have "?mid ! (k - i) = v ! k" using k j by simp
  moreover have "k - i < length ?mid" using k j by simp
  ultimately have "CHR '':'' \<in> set ?mid" using k(4) by (metis nth_mem)
  then have "filter (\<lambda>c. c = CHR '':'') ?mid \<noteq> []" by (simp add: filter_empty_conv)
  then have one: "1 \<le> length (filter (\<lambda>c. c = CHR '':'') ?mid)"
    by (cases "filter (\<lambda>c. c = CHR '':'') ?mid") simp_all
  have "length (filter (\<lambda>c. c = CHR '':'') v) =
        length (filter (\<lambda>c. c = CHR '':'') (take i v)) + length (filter (\<lambda>c. c = CHR '':'') ?mid)
        + length (filter (\<lambda>c. c = CHR '':'') (drop j v))"
    by (subst split) simp
  with colon one have "length (filter (\<lambda>c. c = CHR '':'') (take i v)) = 0"
    "length (filter (\<lambda>c. c = CHR '':'') (drop j v)) = 0"
    by arith+
  then have "filter (\<lambda>c. c = CHR '':'') (take i v) = []" "filter (\<lambda>c. c = CHR '':'') (drop j v) = []"
    by simp_all
  then have nc: "CHR '':'' \<notin> set ?w" by (auto simp: filter_empty_conv)
  have nl: "CHR ''<'' \<notin> set ?w"
    using lt by (auto dest: in_set_takeD in_set_dropD)
  from nc nl show ?thesis unfolding w by simp
qed



text \<open>
  The same holds of a value with tags, when the text that is left after the tags are
  removed holds no \<open><\<close> and at most one colon.
\<close>

lemma cleanup_idempotent_after_tags:
  assumes "CHR ''<'' \<notin> set (replace_all tagRegex v 0)"
    and "length (filter (\<lambda>c. c = CHR '':'') (replace_all tagRegex v 0)) \<le> 1"
  shows "cleanup prefix' (cleanup prefix' v) = cleanup prefix' v"
proof -
  let ?u = "replace_all tagRegex v 0"
  have u: "cleanup prefix' v = cleanup prefix' ?u"
    by (simp add: cleanup_plain [OF assms(1)]) (simp add: cleanup_def)
  from cleanup_removes_the_colon [OF assms, of prefix']
  have "cleanup prefix' (cleanup prefix' ?u) = cleanup prefix' ?u"
  proof
    assume "cleanup prefix' ?u = ?u"
    then show ?thesis by simp
  next
    assume "CHR ''<'' \<notin> set (cleanup prefix' ?u) \<and> CHR '':'' \<notin> set (cleanup prefix' ?u)"
    then show ?thesis by (simp add: cleanup_fixed)
  qed
  then show ?thesis by (simp add: u)
qed

lemma ex_cleanup_tags:
  "replace_all tagRegex ''<font size=2>A: x</font>'' 0 = ''A: x'' \<and>
   cleanup ''A'' ''<font size=2>A: x</font>'' = ''x'' \<and>
   cleanup ''A'' (cleanup ''A'' ''<font size=2>A: x</font>'') = ''x''"
  by (simp add: rx_defs)


section \<open>Theorems: the prefix extractor\<close>

lemma genNextId_fresh:
  "genNextId seen n = (c, seen', n') \<Longrightarrow> c \<notin> set seen \<and> seen' = c # seen"
proof (induction seen n rule: genNextId.induct)
  case (1 idCache autoIdCounter)
  show ?case
  proof (cases "auto_id autoIdCounter \<in> set idCache")
    case True
    with "1.prems" have "genNextId idCache (autoIdCounter + 1) = (c, seen', n')"
      by (subst (asm) genNextId.simps) (simp add: Let_def)
    with "1.IH" True show ?thesis by simp
  next
    case False
    with "1.prems" show ?thesis
      by (subst (asm) genNextId.simps) (auto simp: Let_def)
  qed
qed

lemma parseNode_nomatch:
  "\<not> e_match (extractPrefixFromNode dec n p) \<Longrightarrow>
   parseNode dec p n st = Inr (\<lparr>p_match = False, p_prefixId = None, p_value = [], p_rawValue = []\<rparr>, st)"
  by (simp add: parseNode_def)

lemma parseNode_Inr:
  assumes "parseNode dec p n st = Inr (r, st')" and "p_match r"
  shows "\<exists>pid. p_prefixId r = Some pid \<and> pid \<notin> set (seenIds st) \<and> pid \<in> set (seenIds st') \<and>
               set (seenIds st) \<subseteq> set (seenIds st') \<and>
               (\<forall>e. e_prefixId (extractPrefixFromNode dec n p) = Some e \<longrightarrow> e \<in> set (seenIds st') \<and> e \<notin> set (seenIds st))"
proof (cases "e_match (extractPrefixFromNode dec n p)")
  case False
  with assms show ?thesis by (auto simp: parseNode_nomatch)
next
  case True
  show ?thesis
  proof (cases "e_prefixId (extractPrefixFromNode dec n p)")
    case None
    obtain c s' n' where g: "genNextId (seenIds st) (autoIdCounter st) = (c, s', n')"
      by (cases "genNextId (seenIds st) (autoIdCounter st)") auto
    from genNextId_fresh [OF g] assms True None g show ?thesis
      by (auto simp: parseNode_def Let_def)
  next
    case (Some e)
    show ?thesis
    proof (cases "e = []")
      case False
      with assms True Some show ?thesis
        by (auto simp: parseNode_def Let_def split: if_splits)
    next
      case e: True
      obtain c s' n' where g: "genNextId (e # seenIds st) (autoIdCounter st) = (c, s', n')"
        by (cases "genNextId (e # seenIds st) (autoIdCounter st)") auto
      from genNextId_fresh [OF g] assms True Some e g show ?thesis
        by (auto simp: parseNode_def Let_def split: if_splits)
    qed
  qed
qed

lemma parseNode_match:
  "parseNode dec p n st = Inr (r, st') \<Longrightarrow> p_match r = e_match (extractPrefixFromNode dec n p)"
  by (auto simp: parseNode_def Let_def split: if_splits option.splits prod.splits)

lemma parseNode_unmatched_state:
  "parseNode dec p n st = Inr (r, st') \<Longrightarrow> \<not> p_match r \<Longrightarrow> st' = st"
  by (auto simp: parseNode_def Let_def split: if_splits option.splits prod.splits)

lemma parseNode_Inl:
  "parseNode dec p n st = Inl e \<Longrightarrow>
   \<exists>pid. e = DuplicateNode p pid \<and> declares dec p n pid \<and> pid \<in> set (seenIds st)"
  by (auto simp: parseNode_def declares_def Let_def split: if_splits option.splits prod.splits)

lemma find_loop_distinct:
  "find_loop dec p ns st agg = Inr res \<Longrightarrow> distinct (map prefixId agg) \<Longrightarrow>
   set (map prefixId agg) \<subseteq> set (seenIds st) \<Longrightarrow> distinct (map prefixId res)"
proof (induction ns arbitrary: st agg)
  case Nil
  then show ?case by simp
next
  case (Cons n ns)
  show ?case
  proof (cases "mx_id n = []")
    case True
    with Cons show ?thesis by simp
  next
    case False
    with Cons.prems(1) obtain r st' where pn: "parseNode dec p n st = Inr (r, st')"
      by (cases "parseNode dec p n st") auto
    show ?thesis
    proof (cases "p_match r")
      case nm: False
      with pn False Cons.prems(1) have "find_loop dec p ns st' agg = Inr res" by simp
      moreover from parseNode_unmatched_state [OF pn nm] have "st' = st" .
      ultimately show ?thesis using Cons.IH Cons.prems(2,3) by blast
    next
      case True
      from parseNode_Inr [OF pn True] obtain pid where pid: "p_prefixId r = Some pid"
        "pid \<notin> set (seenIds st)" "pid \<in> set (seenIds st')" "set (seenIds st) \<subseteq> set (seenIds st')"
        by blast
      let ?agg = "agg @ [\<lparr>node = n, nodeId = mx_id n, prefix = p, prefixId = or_empty (p_prefixId r),
                          value' = p_value r, rawValue = p_rawValue r\<rparr>]"
      from pn False True Cons.prems(1) have fl: "find_loop dec p ns st' ?agg = Inr res" by simp
      have d: "distinct (map prefixId ?agg)"
        using Cons.prems(2,3) pid by (auto simp: or_empty_def)
      have s: "set (map prefixId ?agg) \<subseteq> set (seenIds st')"
        using Cons.prems(3) pid by (auto simp: or_empty_def)
      from Cons.IH [OF fl d s] show ?thesis .
    qed
  qed
qed

lemma find_loop_explicit:
  "find_loop dec p ns st agg = Inr res \<Longrightarrow>
   distinct (explicit_ids dec p ns) \<and> set (explicit_ids dec p ns) \<inter> set (seenIds st) = {}"
proof (induction ns arbitrary: st agg)
  case Nil
  then show ?case by (simp add: explicit_ids_def)
next
  case (Cons n ns)
  show ?case
  proof (cases "mx_id n = []")
    case True
    with Cons show ?thesis by (simp add: explicit_ids_def)
  next
    case False
    with Cons.prems(1) obtain r st' where pn: "parseNode dec p n st = Inr (r, st')"
      by (cases "parseNode dec p n st") auto
    show ?thesis
    proof (cases "p_match r")
      case nm: False
      with pn False Cons.prems(1) have "find_loop dec p ns st' agg = Inr res" by simp
      moreover from parseNode_unmatched_state [OF pn nm] have "st' = st" .
      moreover from parseNode_match [OF pn] nm have "\<not> e_match (extractPrefixFromNode dec n p)" by simp
      ultimately show ?thesis using Cons.IH by (auto simp: explicit_ids_def)
    next
      case True
      from parseNode_Inr [OF pn True] obtain pid where pid: "p_prefixId r = Some pid"
        "set (seenIds st) \<subseteq> set (seenIds st')"
        "\<forall>e. e_prefixId (extractPrefixFromNode dec n p) = Some e \<longrightarrow> e \<in> set (seenIds st') \<and> e \<notin> set (seenIds st)"
        by blast
      from pn False True Cons.prems(1) obtain agg' where "find_loop dec p ns st' agg' = Inr res" by auto
      from Cons.IH [OF this] have ih: "distinct (explicit_ids dec p ns)"
        "set (explicit_ids dec p ns) \<inter> set (seenIds st') = {}" by simp_all
      have ex: "explicit_ids dec p (n # ns) =
        (case e_prefixId (extractPrefixFromNode dec n p) of None \<Rightarrow> [] | Some e \<Rightarrow> [e]) @ explicit_ids dec p ns"
        using False True parseNode_match [OF pn] by (simp add: explicit_ids_def)
      show ?thesis
        unfolding ex using ih pid(2,3) by (auto split: option.splits)
    qed
  qed
qed

lemma find_loop_error:
  "find_loop dec p ns st agg = Inl e \<Longrightarrow> \<exists>pid. e = DuplicateNode p pid"
proof (induction ns arbitrary: st agg)
  case Nil
  then show ?case by simp
next
  case (Cons n ns)
  show ?case
  proof (cases "mx_id n = []")
    case True
    with Cons show ?thesis by simp
  next
    case False
    show ?thesis
    proof (cases "parseNode dec p n st")
      case (Inl e')
      with Cons.prems False have "e = e'" by simp
      with parseNode_Inl [OF Inl] show ?thesis by blast
    next
      case (Inr x)
      with Cons.prems False Cons.IH show ?thesis
        by (cases x) (auto split: if_splits)
    qed
  qed
qed

lemma concat_repeated:
  assumes "i < j" "j < length xs" "x \<in> set (f (xs ! i))" "x \<in> set (f (xs ! j))"
  shows "\<not> distinct (concat (map f xs))"
proof
  assume d: "distinct (concat (map f xs))"
  have xs: "xs = take j xs @ xs ! j # drop (Suc j) xs"
    using assms(2) by (rule id_take_nth_drop)
  have "xs ! i \<in> set (take j xs)"
    using assms(1,2) by (metis in_set_conv_nth length_take min.absorb2 nat_less_le nth_take)
  with assms(3) have a: "x \<in> set (concat (map f (take j xs)))" by auto
  from assms(4) have b: "x \<in> set (concat (map f (xs ! j # drop (Suc j) xs)))" by simp
  from d have "distinct (concat (map f (take j xs)) @ concat (map f (xs ! j # drop (Suc j) xs)))"
    by (subst (asm) xs) simp
  with a b show False by auto
qed

lemmas find_defs = findPrefixedNodes_def select_valued_def parseNode_def extractPrefixFromNode_def
  new_parser_def or_empty_def genNextId.simps auto_id_def show_nat.simps digit_char_def Let_def
  ex_idless_def ex_first_def ex_second_def ex_auto_def

lemma find_loop_skip:
  "find_loop dec p (filter (\<lambda>n. mx_id n \<noteq> []) ns) st agg = find_loop dec p ns st agg"
  by (induction ns arbitrary: st agg) (auto split: sum.splits)

lemma find_loop_nodes:
  "find_loop dec p ns st agg = Inr res \<Longrightarrow>
   (\<And>e. e \<in> set agg \<Longrightarrow> mx_id (node e) \<noteq> [] \<and> nodeId e = mx_id (node e) \<and> node e \<in> S) \<Longrightarrow>
   set ns \<subseteq> S \<Longrightarrow>
   e \<in> set res \<Longrightarrow> mx_id (node e) \<noteq> [] \<and> nodeId e = mx_id (node e) \<and> node e \<in> S"
proof (induction ns arbitrary: st agg)
  case Nil
  then show ?case by simp
next
  case (Cons n ns)
  show ?case
  proof (cases "mx_id n = []")
    case True
    with Cons.prems have "find_loop dec p ns st agg = Inr res" by simp
    from Cons.IH [OF this Cons.prems(2)] Cons.prems(3,4) show ?thesis by simp
  next
    case False
    with Cons.prems(1) obtain r st' where pn: "parseNode dec p n st = Inr (r, st')"
      by (cases "parseNode dec p n st") auto
    show ?thesis
    proof (cases "p_match r")
      case nm: False
      with pn False Cons.prems(1) have "find_loop dec p ns st' agg = Inr res" by simp
      from Cons.IH [OF this Cons.prems(2)] Cons.prems(3,4) show ?thesis by simp
    next
      case True
      let ?agg = "agg @ [\<lparr>node = n, nodeId = mx_id n, prefix = p, prefixId = or_empty (p_prefixId r),
                          value' = p_value r, rawValue = p_rawValue r\<rparr>]"
      from pn False True Cons.prems(1) have fl: "find_loop dec p ns st' ?agg = Inr res" by simp
      have "\<And>e. e \<in> set ?agg \<Longrightarrow> mx_id (node e) \<noteq> [] \<and> nodeId e = mx_id (node e) \<and> node e \<in> S"
        using Cons.prems(2,3) False by auto
      from Cons.IH [OF fl this] Cons.prems(3,4) show ?thesis by simp
    qed
  qed
qed

text \<open>
  C9: \<open>findPrefixedNodes\<close> returns no entity for an element without an \<open>id\<close>: every
  entity it returns is of an element of the document with a non-empty \<open>id\<close>, and the
  result is the same as on the document without the elements that lack one, whatever their
  values are; they are skipped without an error and without using up an identifier.
\<close>

theorem nodes_without_id_are_skipped:
  "findPrefixedNodes dec (filter (\<lambda>n. mx_id n \<noteq> []) doc) prefix' = findPrefixedNodes dec doc prefix' \<and>
   (\<forall>found. findPrefixedNodes dec doc prefix' = Inr found \<longrightarrow>
      (\<forall>e \<in> set found. mx_id (node e) \<noteq> [] \<and> nodeId e = mx_id (node e) \<and> node e \<in> set doc))"
proof -
  have "select_valued (filter (\<lambda>n. mx_id n \<noteq> []) doc) = filter (\<lambda>n. mx_id n \<noteq> []) (select_valued doc)"
    by (simp add: select_valued_def conj_commute)
  then have a: "findPrefixedNodes dec (filter (\<lambda>n. mx_id n \<noteq> []) doc) prefix' = findPrefixedNodes dec doc prefix'"
    by (simp add: findPrefixedNodes_def find_loop_skip)
  have b: "mx_id (node e) \<noteq> [] \<and> nodeId e = mx_id (node e) \<and> node e \<in> set doc"
    if "findPrefixedNodes dec doc prefix' = Inr found" "e \<in> set found" for found e
    by (rule find_loop_nodes [OF that(1) [unfolded findPrefixedNodes_def] _ _ that(2)])
      (auto simp: select_valued_def)
  from a b show ?thesis by blast
qed

theorem nodes_without_id_are_skipped_witness:
  "declares (\<lambda>s. s) ''A'' ex_idless ''x'' \<and>
   findPrefixedNodes (\<lambda>s. s) [ex_idless, ex_auto] ''A'' =
     Inr [\<lparr>node = ex_auto, nodeId = ''n3'', prefix = ''A'', prefixId = ''auto_1'', value' = ''y'',
           rawValue = ''A: y''\<rparr>] \<and>
   findPrefixedNodes (\<lambda>s. s) (filter (\<lambda>n. mx_id n \<noteq> []) [ex_idless, ex_auto]) ''A'' =
     findPrefixedNodes (\<lambda>s. s) [ex_idless, ex_auto] ''A''"
proof -
  have d: "declares (\<lambda>s. s) ''A'' ex_idless ''x''"
    by (simp add: declares_def find_defs rx_defs)
  have f: "findPrefixedNodes (\<lambda>s. s) [ex_idless, ex_auto] ''A'' =
     Inr [\<lparr>node = ex_auto, nodeId = ''n3'', prefix = ''A'', prefixId = ''auto_1'', value' = ''y'',
           rawValue = ''A: y''\<rparr>]"
    by (simp add: find_defs rx_defs)
  from nodes_without_id_are_skipped [of "\<lambda>s. s" "[ex_idless, ex_auto]" "''A''"] d f
  show ?thesis by simp
qed

text \<open>
  C4, as amended: the \<open>prefixId\<close> values that one call of \<open>findPrefixedNodes\<close> returns
  are pairwise distinct; and if two nodes that both carry an \<open>id\<close> declare the same
  explicit identifier under the prefix, the call fails with a duplicate-node error and
  returns no entity.
\<close>

theorem prefix_ids_unique:
  "(\<forall>found. findPrefixedNodes dec doc prefix' = Inr found \<longrightarrow> distinct (map prefixId found)) \<and>
   (\<forall>i j pid. i < j \<and> j < length (select_valued doc) \<and>
       mx_id (select_valued doc ! i) \<noteq> [] \<and> declares dec prefix' (select_valued doc ! i) pid \<and>
       mx_id (select_valued doc ! j) \<noteq> [] \<and> declares dec prefix' (select_valued doc ! j) pid
       \<longrightarrow> (\<exists>pid'. findPrefixedNodes dec doc prefix' = Inl (DuplicateNode prefix' pid')))"
proof -
  have a: "distinct (map prefixId found)" if "findPrefixedNodes dec doc prefix' = Inr found" for found
    using find_loop_distinct [OF that [unfolded findPrefixedNodes_def]] by simp
  have b: "\<exists>pid'. findPrefixedNodes dec doc prefix' = Inl (DuplicateNode prefix' pid')"
    if "i < j" "j < length (select_valued doc)"
      "mx_id (select_valued doc ! i) \<noteq> []" "declares dec prefix' (select_valued doc ! i) pid"
      "mx_id (select_valued doc ! j) \<noteq> []" "declares dec prefix' (select_valued doc ! j) pid"
    for i j pid
  proof -
    have "\<not> distinct (explicit_ids dec prefix' (select_valued doc))"
      unfolding explicit_ids_def
      by (rule concat_repeated [OF that(1,2), where x = pid]) (use that in \<open>simp_all add: declares_def\<close>)
    then have "findPrefixedNodes dec doc prefix' \<noteq> Inr found" for found
      unfolding findPrefixedNodes_def using find_loop_explicit by blast
    then obtain e where "findPrefixedNodes dec doc prefix' = Inl e"
      by (cases "findPrefixedNodes dec doc prefix'") auto
    with find_loop_error [of dec prefix' "select_valued doc" new_parser "[]" e]
    show ?thesis by (auto simp: findPrefixedNodes_def)
  qed
  from a b show ?thesis by blast
qed

theorem prefix_ids_unique_witness:
  "findPrefixedNodes (\<lambda>s. s) [ex_first, ex_auto] ''A'' =
     Inr [\<lparr>node = ex_first, nodeId = ''n1'', prefix = ''A'', prefixId = ''x'', value' = ''v'',
           rawValue = ''A(x): v''\<rparr>,
          \<lparr>node = ex_auto, nodeId = ''n3'', prefix = ''A'', prefixId = ''auto_1'', value' = ''y'',
           rawValue = ''A: y''\<rparr>] \<and>
   distinct [''x'', ''auto_1''] \<and>
   declares (\<lambda>s. s) ''A'' ex_first ''x'' \<and> declares (\<lambda>s. s) ''A'' ex_second ''x'' \<and>
   findPrefixedNodes (\<lambda>s. s) [ex_first, ex_second] ''A'' = Inl (DuplicateNode ''A'' ''x'')"
proof -
  have f: "findPrefixedNodes (\<lambda>s. s) [ex_first, ex_auto] ''A'' =
     Inr [\<lparr>node = ex_first, nodeId = ''n1'', prefix = ''A'', prefixId = ''x'', value' = ''v'',
           rawValue = ''A(x): v''\<rparr>,
          \<lparr>node = ex_auto, nodeId = ''n3'', prefix = ''A'', prefixId = ''auto_1'', value' = ''y'',
           rawValue = ''A: y''\<rparr>]"
    by (simp add: find_defs rx_defs)
  have d1: "declares (\<lambda>s. s) ''A'' ex_first ''x''"
    by (simp add: declares_def find_defs rx_defs)
  have d2: "declares (\<lambda>s. s) ''A'' ex_second ''x''"
    by (simp add: declares_def find_defs rx_defs)
  have g: "findPrefixedNodes (\<lambda>s. s) [ex_first, ex_second] ''A'' = Inl (DuplicateNode ''A'' ''x'')"
    by (simp add: find_defs rx_defs)
  from prefix_ids_unique [of "\<lambda>s. s" "[ex_first, ex_auto]" "''A''"] f
  have "distinct [''x'', ''auto_1'']" by simp
  moreover
  have sel: "select_valued [ex_first, ex_second] = [ex_first, ex_second]"
    by (simp add: select_valued_def ex_first_def ex_second_def)
  have pre: "(0::nat) < 1 \<and> 1 < length (select_valued [ex_first, ex_second]) \<and>
       mx_id (select_valued [ex_first, ex_second] ! 0) \<noteq> [] \<and>
       declares (\<lambda>s. s) ''A'' (select_valued [ex_first, ex_second] ! 0) ''x'' \<and>
       mx_id (select_valued [ex_first, ex_second] ! 1) \<noteq> [] \<and>
       declares (\<lambda>s. s) ''A'' (select_valued [ex_first, ex_second] ! 1) ''x''"
    unfolding sel using d1 d2 by (simp add: ex_first_def ex_second_def)
  from prefix_ids_unique [of "\<lambda>s. s" "[ex_first, ex_second]" "''A''", THEN conjunct2, rule_format, OF pre]
  have "\<exists>pid'. findPrefixedNodes (\<lambda>s. s) [ex_first, ex_second] ''A'' = Inl (DuplicateNode ''A'' pid')" .
  ultimately show ?thesis using f d1 d2 g by simp
qed

text \<open>
  Without the proviso the second half fails: a node without an \<open>id\<close> is skipped before
  its value is parsed, so its identifier is never compared.
\<close>

theorem prefix_ids_unique_counterexample:
  "declares (\<lambda>s. s) ''A'' ex_first ''x'' \<and> declares (\<lambda>s. s) ''A'' ex_idless ''x'' \<and>
   findPrefixedNodes (\<lambda>s. s) [ex_first, ex_idless] ''A'' =
     Inr [\<lparr>node = ex_first, nodeId = ''n1'', prefix = ''A'', prefixId = ''x'', value' = ''v'',
           rawValue = ''A(x): v''\<rparr>]"
  by (simp add: declares_def find_defs rx_defs)


section \<open>Theorems: edges of the question extractor\<close>





lemma push_target_nodeId: "map nodeId (push_target i t qs) = map nodeId qs"
proof (rule nth_equalityI)
  show "length (map nodeId (push_target i t qs)) = length (map nodeId qs)"
    by (simp add: push_target_def)
next
  fix j
  assume "j < length (map nodeId (push_target i t qs))"
  then have j: "j < length qs" by (simp add: push_target_def)
  then show "map nodeId (push_target i t qs) ! j = map nodeId qs ! j"
    by (cases "i = j") (simp_all add: push_target_def)
qed



lemma record_edge_nodeId: "map nodeId (record_edge e qs) = map nodeId qs"
  by (simp add: record_edge_def push_target_nodeId split: option.splits)




lemma fold_record_nodeId: "map nodeId (fold record_edge es qs) = map nodeId qs"
  by (induction es arbitrary: qs) (auto simp: record_edge_nodeId)










lemmas q_defs = parseQuestions_def questionNodes_of_def select_edges_def scan_edge_def push_target_def
  key_of_def inherited_names_def ex_q1_def ex_q2_def ex_a1_def ex_edge_def







text \<open>
  An edge whose source is an inherited name: the dictionary of the questions answers for
  it with a value that has no \<open>targetIds\<close>, and the extractor throws.
\<close>

lemma ex_inherited_source:
  "parseQuestions (\<lambda>s. s) [ex_q1, ex_a1, ex_edge ''e1'' ''constructor'' ''q1''] = Inl TypeError"
proof -
  have "findPrefixedNodes (\<lambda>s. s) [ex_q1, ex_a1, ex_edge ''e1'' ''constructor'' ''q1''] ''Q'' =
     Inr [\<lparr>node = ex_q1, nodeId = ''q1'', prefix = ''Q'', prefixId = ''auto_1'', value' = ''a<br>- b?'',
           rawValue = ''Q: a<br>- b?''\<rparr>]"
    by (simp add: find_defs rx_defs ex_q1_def ex_a1_def ex_edge_def)
  then show ?thesis
    by (simp add: parseQuestions_def) (simp add: q_defs)
qed

section \<open>The parse command, end to end\<close>

text \<open>
  The document of the example: a container, an assumption inside it, a question with two
  bulleted sub-questions, and an edge from the question to the assumption. The HTML
  decoder is a parameter of the parsers; here it is the identity, and only the decoded
  text of the assumption and the raw value of the question reach the table.
\<close>

lemmas split_defs = split_questions_def regex_split_def split_loop.simps bulletRegex_def trim_def
  chars_def is_space_def is_dot_def

lemma ex_doc_split:
  "split_questions ''Q: Header<br>- Does it scale?<br>- Is it fast?'' =
     [''Does it scale?'', ''Is it fast?'']"
  by (simp add: split_defs)

lemma ex_doc_found_A:
  "findPrefixedNodes (\<lambda>s. s) ex_doc ''A'' =
     Inr [\<lparr>node = ex_assumption_cell, nodeId = ''n1'', prefix = ''A'', prefixId = ''auto_1'',
           value' = ''Widget works'', rawValue = ''A: Widget works''\<rparr>]"
  by (simp add: find_defs rx_defs ex_doc_def ex_container_def ex_assumption_cell_def
      ex_question_cell_def ex_edge_cell_def)

lemma ex_doc_found_Q:
  "findPrefixedNodes (\<lambda>s. s) ex_doc ''Q'' =
     Inr [\<lparr>node = ex_question_cell, nodeId = ''n2'', prefix = ''Q'', prefixId = ''auto_1'',
           value' = ''Header<br>- Does it scale?<br>- Is it fast?'',
           rawValue = ''Q: Header<br>- Does it scale?<br>- Is it fast?''\<rparr>]"
  by (simp add: find_defs rx_defs ex_doc_def ex_container_def ex_assumption_cell_def
      ex_question_cell_def ex_edge_cell_def)

lemma ex_doc_assumptions:
  "parseAssumptions (\<lambda>s. s) ex_doc = Inr [ex_assumption\<lparr>a_questions := []\<rparr>]"
  by (simp add: parseAssumptions_def ex_doc_found_A)
    (simp add: ex_assumption_def ex_assumption_cell_def truthy_def)

lemma ex_doc_questions: "parseQuestions (\<lambda>s. s) ex_doc = Inr [ex_question]"
  by (simp add: parseQuestions_def ex_doc_found_Q questionNodes_of_def ex_doc_split)
    (simp add: ex_doc_def select_edges_def ex_container_def ex_assumption_cell_def
      ex_question_cell_def ex_edge_cell_def scan_edge_def push_target_def key_of_def
      ex_question_def)

lemma ex_doc_linked:
  "transformConnectQuestions [ex_assumption\<lparr>a_questions := []\<rparr>] [ex_question] = [ex_assumption]"
  by (simp add: transformConnectQuestions_def link_question_def key_of_def ex_question_def
      ex_assumption_def)

lemma ex_doc_table:
  "parseCommand_table (\<lambda>s. s) ex_doc =
     Some (Inr [csvHeaders 1,
       [Some ''auto_1'', None, None, Some ''Widget works'', None, Some ''Group'', Some ''Group''],
       [Some ''auto_1'', Some ''auto_1'', Some ''A(auto_1):Q(auto_1):1'', Some ''Widget works'',
        Some ''Does it scale?'', Some ''Group'', Some ''Group''],
       [Some ''auto_1'', Some ''auto_1'', Some ''A(auto_1):Q(auto_1):2'', Some ''Widget works'',
        Some ''Is it fast?'', Some ''Group'', Some ''Group'']])"
proof -
  have "parseContainers ex_doc = parseContainers [ex_container]"
    by (simp add: parseContainers_def containerNodes_of_def select_containers_def ex_doc_def
        ex_container_def ex_assumption_cell_def ex_question_cell_def ex_edge_cell_def
        starts_with_def)
  then have c: "parseContainers ex_doc = Inr ex_containers" by (simp add: ex_parse)
  have "parseCommand_table (\<lambda>s. s) ex_doc = doFormatCsv ex_data"
    by (simp add: parseCommand_table_def ex_doc_assumptions ex_doc_questions ex_doc_linked c
        ex_data_def)
  then show ?thesis by (simp add: ex_table)
qed

subsection \<open>A document without a container\<close>

lemma ex_lonely_found_A:
  "findPrefixedNodes (\<lambda>s. s) [ex_assumption_cell] ''A'' =
     Inr [\<lparr>node = ex_assumption_cell, nodeId = ''n1'', prefix = ''A'', prefixId = ''auto_1'',
           value' = ''Widget works'', rawValue = ''A: Widget works''\<rparr>]"
  by (simp add: find_defs rx_defs ex_assumption_cell_def)

lemma ex_lonely_found_Q: "findPrefixedNodes (\<lambda>s. s) [ex_assumption_cell] ''Q'' = Inr []"
  by (simp add: find_defs rx_defs ex_assumption_cell_def)

text \<open>
  C3: the flattener is to emit, for every linked graph, the row of each assumption and
  the rows of its linked sub-questions. For the document that holds one assumption and no
  container, the parsers find the assumption, \<open>all\<close> is empty, and the flattener throws a
  RangeError while it builds the header: no row is emitted.
\<close>

theorem flattener_throws_without_container:
  "map_sum id c_all (parseContainers [ex_assumption_cell]) = Inr [] \<and>
   map_sum id (map prefixId) (parseAssumptions (\<lambda>s. s) [ex_assumption_cell]) = Inr [''auto_1''] \<and>
   parseCommand_table (\<lambda>s. s) [ex_assumption_cell] = Some (Inl RangeError)"
proof -
  have a: "map_sum id c_all (parseContainers [ex_assumption_cell]) = Inr []"
    by (simp add: ex_parse_none ex_no_containers_def)
  have q: "parseQuestions (\<lambda>s. s) [ex_assumption_cell] = Inr []"
    by (simp add: parseQuestions_def ex_lonely_found_Q)
      (simp add: questionNodes_of_def select_edges_def ex_assumption_cell_def)
  have p: "parseAssumptions (\<lambda>s. s) [ex_assumption_cell] =
           Inr [ex_assumption\<lparr>a_questions := []\<rparr>]"
    by (simp add: parseAssumptions_def ex_lonely_found_A)
      (simp add: ex_assumption_def ex_assumption_cell_def truthy_def)
  have t: "parseCommand_table (\<lambda>s. s) [ex_assumption_cell] = Some (Inl RangeError)"
    by (simp add: parseCommand_table_def p q ex_parse_none)
      (simp add: doFormatCsv_def ex_no_containers_def js_Array_def)
  from a p t show ?thesis by (simp add: ex_assumption_def)
qed

end
